theory Spec2Isabelle
  imports Complex_Main "HOL-Library.Multiset" "HOL-Library.Sublist" "HOL-Library.AList"
begin

section \<open>Text helpers\<close>

text \<open>
  Python's \<open>str(n)\<close> for a non-negative integer: its decimal digits, most significant
  first, no padding.
\<close>

definition digit_char :: "nat \<Rightarrow> char" where
  "digit_char d = ''0123456789'' ! d"

fun str_nat :: "nat \<Rightarrow> string" where
  "str_nat n = (if n < 10 then [digit_char n] else str_nat (n div 10) @ [digit_char (n mod 10)])"

declare str_nat.simps [simp del]

text \<open>The format specification \<open>{h:02d}\<close>: zero-padded on the left to width two.\<close>

definition pad2 :: "nat \<Rightarrow> string" where
  "pad2 n = (let s = str_nat n in replicate (2 - length s) (CHR ''0'') @ s)"

text \<open>
  \<open>format_slot_time\<close>: slot index to \<open>HH:MM\<close>; hour 24 is printed as \<open>24:00\<close>
  whatever the minutes are.
\<close>

definition format_slot_time :: "nat \<Rightarrow> string" where
  "format_slot_time slot =
     (let mins = slot * 30; h = mins div 60; m = mins mod 60
      in if h = 24 then ''24:00'' else pad2 h @ '':'' @ pad2 m)"

section \<open>Period compressor\<close>

text \<open>
  A period is the dictionary \<open>{"start", "end", "is_on", "hours"}\<close> that
  \<open>slots_to_periods\<close> appends. The field \<open>hours\<close> is \<open>(i - start) * 0.5\<close>, a float
  in the source; every such product is exact in binary floating point (for lists shorter
  than \<open>2^53\<close>), so the model holds it as a rational.
\<close>

record period =
  start_time :: string
  end_time :: string
  is_on :: bool
  hours :: rat

definition mk_period :: "nat \<Rightarrow> nat \<Rightarrow> bool \<Rightarrow> period" where
  "mk_period start i cur =
     \<lparr>start_time = format_slot_time start, end_time = format_slot_time i,
      is_on = cur, hours = of_nat (i - start) * (1/2)\<rparr>"

text \<open>
  The \<open>for i in range(1, len(slots))\<close> loop: \<open>n\<close> is \<open>len(slots)\<close>, \<open>i\<close> the loop
  index, \<open>rest\<close> the slots from index \<open>i\<close> on, \<open>cur\<close> (the source's \<open>curr\<close>) and \<open>start\<close> the loop
  variables, \<open>periods\<close> the list built so far. When the loop is over the last run is
  appended.
\<close>

fun periods_loop :: "nat \<Rightarrow> nat \<Rightarrow> bool list \<Rightarrow> bool \<Rightarrow> nat \<Rightarrow> period list \<Rightarrow> period list" where
  "periods_loop n i [] cur start periods = periods @ [mk_period start n cur]"
| "periods_loop n i (s # rest) cur start periods =
     (if s \<noteq> cur then periods_loop n (Suc i) rest s i (periods @ [mk_period start i cur])
      else periods_loop n (Suc i) rest cur start periods)"

definition slots_to_periods :: "bool list \<Rightarrow> period list" where
  "slots_to_periods slots =
     (case slots of [] \<Rightarrow> []
      | s0 # rest \<Rightarrow> periods_loop (length slots) 1 rest s0 0 [])"

text \<open>
  Re-expansion is not part of the program; it follows the specification's words. A
  period dictionary holds its bounds only as \<open>HH:MM\<close> texts, so the slot index is read
  back from the text: two slots per hour plus one for a half hour.
\<close>

definition digit_val :: "char \<Rightarrow> nat" where
  "digit_val c = of_char c - 48"

definition slot_of_time :: "string \<Rightarrow> nat" where
  "slot_of_time t =
     (case t of [h1, h0, sep, m1, m0] \<Rightarrow>
        2 * (10 * digit_val h1 + digit_val h0) + (10 * digit_val m1 + digit_val m0) div 30
      | _ \<Rightarrow> 0)"

definition expand_periods :: "period list \<Rightarrow> bool list" where
  "expand_periods ps =
     concat (map (\<lambda>p. replicate (slot_of_time (end_time p) - slot_of_time (start_time p)) (is_on p)) ps)"

text \<open>
  Contiguous cover: \<open>tiling a b ps\<close> holds when the periods \<open>ps\<close>, in order, are
  non-empty slot ranges \<open>[a, m\<^sub>1), [m\<^sub>1, m\<^sub>2), ..., [m\<^sub>k, b)\<close>: each starts where the one before
  ends, with its two time texts and its duration those of its range.
\<close>

inductive tiling :: "nat \<Rightarrow> nat \<Rightarrow> period list \<Rightarrow> bool" where
  tiling_Nil: "tiling a a []"
| tiling_Cons: "a < m \<Longrightarrow> start_time p = format_slot_time a \<Longrightarrow> end_time p = format_slot_time m \<Longrightarrow>
     hours p = of_nat (m - a) * (1/2) \<Longrightarrow> tiling m b ps \<Longrightarrow> tiling a b (p # ps)"


section \<open>Hour counts in words\<close>

text \<open>
  \<open>format_hours_full\<close> returns the text \<open>f"{hours} <word>"\<close>, the word being one of
  three Ukrainian forms written in Cyrillic in the source:
  \<^item> \<open>Hodyna\<close>, code points U+0433 U+043E U+0434 U+0438 U+043D U+0430 (singular);
  \<^item> \<open>Hodyny\<close>, code points U+0433 U+043E U+0434 U+0438 U+043D U+0438 (the form after 2, 3, 4,
    and also the form after a fraction);
  \<^item> \<open>Hodyn\<close>, code points U+0433 U+043E U+0434 U+0438 U+043D (the form after 5 and more).

  The number printed in front is either the integer the float was replaced by, or the
  float itself. The argument is a float in the source; the function only asks whether it
  is a whole number and what that number is, so the model takes the exact value as a
  rational (infinities and NaN, on which \<open>int\<close> raises, are not values of the model).
  \<open>py_int\<close> is Python's \<open>int\<close> on a float: truncation towards zero.
\<close>

datatype hours_word = Hodyna | Hodyny | Hodyn

datatype hours_number = Whole int | Fractional rat

definition py_int :: "rat \<Rightarrow> int" where
  "py_int x = (if 0 \<le> x then \<lfloor>x\<rfloor> else \<lceil>x\<rceil>)"

definition format_hours_full :: "rat \<Rightarrow> hours_number \<times> hours_word" where
  "format_hours_full h =
     (if h = of_int (py_int h) then
        (let n = py_int h in
         if n mod 10 = 1 \<and> n mod 100 \<noteq> 11 then (Whole n, Hodyna)
         else if n mod 10 \<in> {2, 3, 4} \<and> n mod 100 \<notin> {12, 13, 14} then (Whole n, Hodyny)
         else (Whole n, Hodyn))
      else (Fractional h, Hodyny))"

text \<open>
  The agreement rule in the specification's words, on the decimal numeral of a whole
  number: its last digit, and the two digits it ends in.
\<close>

definition agreement_rule :: "rat \<Rightarrow> hours_word" where
  "agreement_rule h =
     (if h \<notin> \<int> then Hodyny
      else let s = str_nat (nat \<lfloor>h\<rfloor>) in
        if last s = CHR ''1'' \<and> \<not> suffix ''11'' s then Hodyna
        else if last s \<in> {CHR ''2'', CHR ''3'', CHR ''4''}
                \<and> \<not> suffix ''12'' s \<and> \<not> suffix ''13'' s \<and> \<not> suffix ''14'' s then Hodyny
        else Hodyn)"

section \<open>Source A parser\<close>

text \<open>
  A Python dictionary with text keys is an association list in insertion order, its keys
  distinct; \<open>map_of\<close> is the lookup. A day of source A maps the hour keys \<open>"1"\<close> to
  \<open>"24"\<close> to a state text.
\<close>

type_synonym 'v dict = "(string \<times> 'v) list"

type_synonym gh_day = "string dict"

text \<open>\<open>day_data.get(str(h), "yes")\<close>\<close>

definition hour_state :: "gh_day \<Rightarrow> nat \<Rightarrow> string" where
  "hour_state day_data h = (case map_of day_data (str_nat h) of None \<Rightarrow> ''yes'' | Some s \<Rightarrow> s)"

text \<open>The \<open>if\<close>/\<open>elif\<close> chain of \<open>parse_github_day\<close>: the two slots one hour adds.\<close>

definition hour_slots :: "string \<Rightarrow> bool list" where
  "hour_slots s =
     (if s = ''yes'' then [True, True]
      else if s = ''no'' then [False, False]
      else if s = ''first'' then [False, True]
      else if s = ''second'' then [True, False]
      else [True, True])"

text \<open>The loop \<open>for h in range(1, 25)\<close>, extending \<open>slots\<close> each time.\<close>

definition parse_github_day :: "gh_day \<Rightarrow> bool list" where
  "parse_github_day day_data =
     foldl (\<lambda>slots h. slots @ hour_slots (hour_state day_data h)) [] [1..<25]"

section \<open>Dates\<close>

text \<open>
  The program uses a \<open>datetime\<close> only through its calendar date (\<open>strftime\<close> with
  \<open>%Y-%m-%d\<close>, \<open>%d.%m\<close>, and the weekday), so the model of a \<open>datetime\<close> is that date.

  \<open>fromtimestamp\<close> is \<open>datetime.fromtimestamp(ts, tz=KYIV_TZ)\<close>, \<open>KYIV_TZ\<close> being the
  fixed offset of two hours: the civil date of day number \<open>(ts + 7200) div 86400\<close> after
  1970-01-01 in the proleptic Gregorian calendar. \<open>fromisoformat\<close> is
  \<open>datetime.fromisoformat\<close> on a text that starts \<open>YYYY-MM-DD\<close>. \<open>strftime_ymd\<close> is
  \<open>strftime("%Y-%m-%d")\<close>. All three are library functions; the model covers the years
  1000 to 9999 and well-formed date texts, outside of which the library raises or pads
  differently.
\<close>

datatype datetime = Datetime (dt_year: nat) (dt_month: nat) (dt_day: nat)

definition civil_from_days :: "int \<Rightarrow> datetime" where
  "civil_from_days z =
     (let z1 = z + 719468;
          era = z1 div 146097;
          doe = z1 - era * 146097;
          yoe = (doe - doe div 1460 + doe div 36524 - doe div 146096) div 365;
          doy = doe - (365 * yoe + yoe div 4 - yoe div 100);
          mp = (5 * doy + 2) div 153;
          d = doy - (153 * mp + 2) div 5 + 1;
          m = (if mp < 10 then mp + 3 else mp - 9);
          y = yoe + era * 400 + (if m \<le> 2 then 1 else 0)
      in Datetime (nat y) (nat m) (nat d))"

definition fromtimestamp :: "int \<Rightarrow> datetime" where
  "fromtimestamp ts = civil_from_days ((ts + 7200) div 86400)"

definition nat_of_digits :: "string \<Rightarrow> nat" where
  "nat_of_digits s = foldl (\<lambda>n c. 10 * n + digit_val c) 0 s"

definition fromisoformat :: "string \<Rightarrow> datetime" where
  "fromisoformat s =
     Datetime (nat_of_digits (take 4 s)) (nat_of_digits (take 2 (drop 5 s))) (nat_of_digits (take 2 (drop 8 s)))"

definition strftime_ymd :: "datetime \<Rightarrow> string" where
  "strftime_ymd dt = str_nat (dt_year dt) @ ''-'' @ pad2 (dt_month dt) @ ''-'' @ pad2 (dt_day dt)"

section \<open>Day schedules and snapshots\<close>

text \<open>
  The dictionary \<open>{"slots": ..., "date": ..., "status": ...}\<close> both parsers store for a
  day; \<open>slots\<close> is \<open>None\<close> or the timeline. A snapshot maps a group to a dictionary from
  date text to day schedule.
\<close>

record day_schedule =
  ds_slots :: "bool list option"
  ds_date :: datetime
  ds_status :: string

type_synonym snapshot = "day_schedule dict dict"

text \<open>The exceptions the modelled code can raise on a feed of the expected shape.\<close>

datatype error = IndexError | TypeError

text \<open>
  Status exclusivity, as a test on one day schedule: the timeline is there exactly when
  the status is \<open>normal\<close>, and a timeline has 48 slots.
\<close>

definition day_invariant :: "day_schedule \<Rightarrow> bool" where
  "day_invariant day \<longleftrightarrow>
     (ds_slots day \<noteq> None \<longleftrightarrow> ds_status day = ''normal'')
     \<and> (case ds_slots day of None \<Rightarrow> True | Some timeline \<Rightarrow> length timeline = 48)"

definition snapshot_days :: "snapshot \<Rightarrow> day_schedule list" where
  "snapshot_days snap = concat (map (\<lambda>(grp, days). map snd days) snap)"

section \<open>Source A: \<open>extract_github\<close>\<close>

text \<open>
  The feed documents are modelled at the shape the parsers expect. Source A is
  \<open>{"fact": {"data": {ts: {group: {hour: state}}}}}\<close>; a day key \<open>ts\<close> is the decimal
  text of a Unix timestamp, and the model holds the integer that \<open>int(ts)\<close> returns, so
  \<open>sorted(fact.keys(), key=int)\<close> is the sorted list of the keys. A document of another
  shape makes Python raise before a schedule is built and is not a value of the model.
  \<open>data\<close> is \<open>None\<close> when the fetch failed.
\<close>

type_synonym gh_fact = "(int \<times> gh_day dict) list"

type_synonym gh_doc = "gh_fact dict dict"

text \<open>\<open>data.get("fact", {}).get("data", {})\<close>\<close>

definition github_fact :: "gh_doc \<Rightarrow> gh_fact" where
  "github_fact doc =
     (case map_of (case map_of doc ''fact'' of None \<Rightarrow> [] | Some sec \<Rightarrow> sec) ''data'' of
        None \<Rightarrow> [] | Some facts \<Rightarrow> facts)"

text \<open>The value stored for one day: \<open>pending\<close> when \<open>all(...)\<close> holds, else \<open>normal\<close>.\<close>

definition github_day_schedule :: "gh_day \<Rightarrow> datetime \<Rightarrow> day_schedule" where
  "github_day_schedule d dt =
     (if list_all (\<lambda>h. hour_state d h = ''yes'') [1..<25]
      then \<lparr>ds_slots = None, ds_date = dt, ds_status = ''pending''\<rparr>
      else \<lparr>ds_slots = Some (parse_github_day d), ds_date = dt, ds_status = ''normal''\<rparr>)"

text \<open>\<open>fact.get(ts, {}).get(grp)\<close>\<close>

definition github_group_data :: "gh_fact \<Rightarrow> string \<Rightarrow> int \<Rightarrow> gh_day option" where
  "github_group_data facts grp ts =
     map_of (case map_of facts ts of None \<Rightarrow> [] | Some day_groups \<Rightarrow> day_groups) grp"

text \<open>
  One round of the loop over day keys, on the dictionary \<open>res[grp]\<close>: a missing or empty
  day is skipped (\<open>if not d: continue\<close>), otherwise \<open>res[grp][d_str]\<close> is assigned.
\<close>

definition github_day_step :: "gh_fact \<Rightarrow> string \<Rightarrow> day_schedule dict \<Rightarrow> int \<Rightarrow> day_schedule dict" where
  "github_day_step facts grp days ts =
     (case github_group_data facts grp ts of
        None \<Rightarrow> days
      | Some d \<Rightarrow>
          if d = [] then days
          else let dt = fromtimestamp ts; d_str = strftime_ymd dt
               in AList.update d_str (github_day_schedule d dt) days)"

text \<open>\<open>res[grp]\<close> after the loop \<open>for ts in sorted(fact.keys(), key=int)[:2]\<close>.\<close>

definition github_group :: "gh_fact \<Rightarrow> string \<Rightarrow> day_schedule dict" where
  "github_group facts grp = foldl (github_day_step facts grp) [] (take 2 (sort (map fst facts)))"

definition extract_github :: "gh_doc option \<Rightarrow> string list \<Rightarrow> snapshot" where
  "extract_github data groups =
     (case data of
        None \<Rightarrow> []
      | Some doc \<Rightarrow>
          if doc = [] then []
          else let facts = github_fact doc
               in foldl (\<lambda>res grp. AList.update grp (github_group facts grp) res) [] groups)"

text \<open>
  In the specification's words for claim C6: an hour resolves to yes when it expands as
  yes does, which the literal state \<open>yes\<close>, a missing key and an unrecognised state do.
\<close>

definition resolves_to_yes :: "gh_day \<Rightarrow> nat \<Rightarrow> bool" where
  "resolves_to_yes d h \<longleftrightarrow> hour_slots (hour_state d h) = hour_slots ''yes''"

definition every_hour_resolves_to_yes :: "gh_day \<Rightarrow> bool" where
  "every_hour_resolves_to_yes d \<longleftrightarrow> list_all (resolves_to_yes d) [1..<25]"

text \<open>
  For claim C7: whether a group has data under a day key, and, in the specification's
  words, the two earliest day keys available for a group.
\<close>

definition has_data :: "gh_fact \<Rightarrow> string \<Rightarrow> int \<Rightarrow> bool" where
  "has_data facts grp ts \<longleftrightarrow> (case github_group_data facts grp ts of None \<Rightarrow> False | Some d \<Rightarrow> d \<noteq> [])"

definition earliest_two_available :: "gh_fact \<Rightarrow> string \<Rightarrow> int list" where
  "earliest_two_available facts grp = take 2 (sort (filter (has_data facts grp) (map fst facts)))"

definition date_key :: "int \<Rightarrow> string" where
  "date_key ts = strftime_ymd (fromtimestamp ts)"

section \<open>Source B: \<open>extract_yasno\<close>\<close>

text \<open>
  Source B is \<open>{key: {"today": day, "tomorrow": day}}\<close>, a day being
  \<open>{"date": text, "status": text, "slots": [{"start": int, "end": int, "type": text}]}\<close>.
  A field is \<open>None\<close> when its key is missing (for \<open>slots\<close> also when it is \<open>null\<close>).
\<close>

record yasno_interval =
  iv_start :: "int option"
  iv_end :: "int option"
  iv_type :: "string option"

record yasno_day =
  yd_date :: "string option"
  yd_status :: "string option"
  yd_slots :: "yasno_interval list option"

type_synonym yasno_doc = "yasno_day dict dict"

text \<open>
  The assignment \<open>xs[i] = v\<close> of a Python list: a negative index counts from the end, an
  index outside the list raises \<open>IndexError\<close>.
\<close>

definition list_set :: "'a list \<Rightarrow> int \<Rightarrow> 'a \<Rightarrow> error + 'a list" where
  "list_set xs i v =
     (let n = int (length xs); j = (if i < 0 then i + n else i)
      in if 0 \<le> j \<and> j < n then Inr (xs[nat j := v]) else Inl IndexError)"

text \<open>The inner loop \<open>for i in range(start, min(end, 48)): slots[i] = is_on\<close>.\<close>

fun set_slots :: "bool list \<Rightarrow> int list \<Rightarrow> bool \<Rightarrow> error + bool list" where
  "set_slots slots [] on = Inr slots"
| "set_slots slots (i # rest) on =
     (case list_set slots i on of Inl e \<Rightarrow> Inl e | Inr slots' \<Rightarrow> set_slots slots' rest on)"

text \<open>\<open>s.get("start", 0)\<close> and \<open>s.get("end", 0)\<close>\<close>

definition minute_or_0 :: "int option \<Rightarrow> int" where
  "minute_or_0 m = (case m of None \<Rightarrow> 0 | Some x \<Rightarrow> x)"

text \<open>
  The body of \<open>for s in d["slots"]\<close>. Python's \<open>//\<close> rounds down, as \<open>div\<close> on \<open>int\<close>
  does; \<open>range(a, b)\<close> is the list \<open>[a..b - 1]\<close>.
\<close>

definition apply_interval :: "bool list \<Rightarrow> yasno_interval \<Rightarrow> error + bool list" where
  "apply_interval slots s =
     (let start = minute_or_0 (iv_start s) div 30;
          end_slot = minute_or_0 (iv_end s) div 30;
          on = (iv_type s = Some ''NotPlanned'')
      in set_slots slots [start..min end_slot 48 - 1] on)"

fun apply_intervals :: "bool list \<Rightarrow> yasno_interval list \<Rightarrow> error + bool list" where
  "apply_intervals slots [] = Inr slots"
| "apply_intervals slots (s # rest) =
     (case apply_interval slots s of Inl e \<Rightarrow> Inl e | Inr slots' \<Rightarrow> apply_intervals slots' rest)"

text \<open>
  What is stored for a day that has a date: \<open>emergency\<close>, \<open>pending\<close>, or \<open>normal\<close> with
  the timeline built from \<open>[True] * 48\<close>.
\<close>

definition yasno_day_schedule :: "yasno_day \<Rightarrow> datetime \<Rightarrow> error + day_schedule" where
  "yasno_day_schedule d dt =
     (let status = (case yd_status d of None \<Rightarrow> [] | Some s \<Rightarrow> s)
      in if status = ''EmergencyShutdowns''
         then Inr \<lparr>ds_slots = None, ds_date = dt, ds_status = ''emergency''\<rparr>
         else case yd_slots d of
                None \<Rightarrow> Inr \<lparr>ds_slots = None, ds_date = dt, ds_status = ''pending''\<rparr>
              | Some ivs \<Rightarrow>
                  if ivs = [] then Inr \<lparr>ds_slots = None, ds_date = dt, ds_status = ''pending''\<rparr>
                  else case apply_intervals (replicate 48 True) ivs of
                         Inl e \<Rightarrow> Inl e
                       | Inr slots \<Rightarrow> Inr \<lparr>ds_slots = Some slots, ds_date = dt, ds_status = ''normal''\<rparr>)"

text \<open>
  One round of \<open>for day in ["today", "tomorrow"]\<close> on the dictionary \<open>res[grp]\<close>; a
  missing day and a day without \<open>date\<close> are skipped.
\<close>

definition yasno_day_step :: "yasno_day dict \<Rightarrow> day_schedule dict \<Rightarrow> string \<Rightarrow> error + day_schedule dict" where
  "yasno_day_step entry days day =
     (case map_of entry day of
        None \<Rightarrow> Inr days
      | Some d \<Rightarrow>
          (case yd_date d of
             None \<Rightarrow> Inr days
           | Some date_text \<Rightarrow>
               let dt = fromisoformat date_text; d_str = strftime_ymd dt
               in case yasno_day_schedule d dt of
                    Inl e \<Rightarrow> Inl e
                  | Inr sched \<Rightarrow> Inr (AList.update d_str sched days)))"

definition yasno_group :: "yasno_day dict \<Rightarrow> error + day_schedule dict" where
  "yasno_group entry =
     (case yasno_day_step entry [] ''today'' of
        Inl e \<Rightarrow> Inl e
      | Inr days \<Rightarrow> yasno_day_step entry days ''tomorrow'')"

text \<open>
  \<open>s.replace(old, new)\<close> of a Python text, for a non-empty \<open>old\<close>: every occurrence,
  found from the left without overlap.
\<close>

fun replace_str :: "string \<Rightarrow> string \<Rightarrow> string \<Rightarrow> string" where
  "replace_str old new [] = []"
| "replace_str old new (c # cs) =
     (if old \<noteq> [] \<and> prefix old (c # cs)
      then new @ replace_str old new (drop (length old - 1) cs)
      else c # replace_str old new cs)"

text \<open>The loop over the configured groups; an exception ends the whole function.\<close>

fun yasno_groups :: "yasno_doc \<Rightarrow> snapshot \<Rightarrow> string list \<Rightarrow> error + snapshot" where
  "yasno_groups doc res [] = Inr res"
| "yasno_groups doc res (grp # rest) =
     (case map_of doc (replace_str ''GPV'' [] grp) of
        None \<Rightarrow> yasno_groups doc res rest
      | Some entry \<Rightarrow>
          (case yasno_group entry of
             Inl e \<Rightarrow> Inl e
           | Inr days \<Rightarrow> yasno_groups doc (AList.update grp days res) rest))"

definition extract_yasno :: "yasno_doc option \<Rightarrow> string list \<Rightarrow> error + snapshot" where
  "extract_yasno data groups =
     (case data of
        None \<Rightarrow> Inr []
      | Some doc \<Rightarrow> if doc = [] then Inr [] else yasno_groups doc [] groups)"

text \<open>
  The timeline of claim C4 in the specification's words. An interval covers the slots
  from \<open>start_minute div 30\<close> up to, not including, \<open>end_minute div 30\<close>, both clamped to
  the range from 0 to 48. A slot no interval covers is on; a covered slot takes the
  value of the last interval in input order that covers it.
\<close>

definition clamp_slot :: "int \<Rightarrow> int" where
  "clamp_slot x = max 0 (min 48 x)"

definition covers :: "nat \<Rightarrow> yasno_interval \<Rightarrow> bool" where
  "covers i s \<longleftrightarrow>
     clamp_slot (minute_or_0 (iv_start s) div 30) \<le> int i
     \<and> int i < clamp_slot (minute_or_0 (iv_end s) div 30)"

definition last_write_wins :: "yasno_interval list \<Rightarrow> nat \<Rightarrow> bool" where
  "last_write_wins ivs i =
     (case filter (covers i) ivs of [] \<Rightarrow> True | c # cs \<Rightarrow> iv_type (last (c # cs)) = Some ''NotPlanned'')"

definition spec_timeline :: "yasno_interval list \<Rightarrow> bool list" where
  "spec_timeline ivs = map (last_write_wins ivs) [0..<48]"

text \<open>The invariant on every day of a dictionary of days, and of a snapshot.\<close>

definition days_ok :: "day_schedule dict \<Rightarrow> bool" where
  "days_ok days \<longleftrightarrow> (\<forall>(k, day) \<in> set days. day_invariant day)"

definition snapshot_ok :: "snapshot \<Rightarrow> bool" where
  "snapshot_ok snap \<longleftrightarrow> (\<forall>(grp, days) \<in> set snap. days_ok days)"

section \<open>Sample feeds\<close>

text \<open>A day of source B whose only interval starts before midnight.\<close>

definition negative_start_intervals :: "yasno_interval list" where
  "negative_start_intervals = [\<lparr>iv_start = Some (- 30), iv_end = Some 30, iv_type = Some ''Definite''\<rparr>]"

definition negative_start_day :: yasno_day where
  "negative_start_day =
     \<lparr>yd_date = Some ''2025-01-15T00:00:00+02:00'', yd_status = Some ''ScheduleApplies'',
      yd_slots = Some negative_start_intervals\<rparr>"

text \<open>A day of source B with an outage from 08:00 to 12:00, cancelled from 10:00 on.\<close>

definition overlapping_intervals :: "yasno_interval list" where
  "overlapping_intervals =
     [\<lparr>iv_start = Some 480, iv_end = Some 720, iv_type = Some ''Definite''\<rparr>,
      \<lparr>iv_start = Some 600, iv_end = Some 3000, iv_type = Some ''NotPlanned''\<rparr>]"

definition overlapping_day :: yasno_day where
  "overlapping_day =
     \<lparr>yd_date = Some ''2025-01-15T00:00:00+02:00'', yd_status = Some ''ScheduleApplies'',
      yd_slots = Some overlapping_intervals\<rparr>"

text \<open>
  For claim C7: the date key \<open>extract_yasno\<close> stores for the entry \<open>today\<close> or
  \<open>tomorrow\<close> of a group, if that entry is there and has a date.
\<close>

definition yasno_day_key :: "yasno_day dict \<Rightarrow> string \<Rightarrow> string option" where
  "yasno_day_key entry day =
     (case map_of entry day of
        None \<Rightarrow> None
      | Some d \<Rightarrow> map_option (\<lambda>date_text. strftime_ymd (fromisoformat date_text)) (yd_date d))"

text \<open>The value of a result that is not an exception.\<close>

definition the_inr :: "'e + 'a \<Rightarrow> 'a" where
  "the_inr r = (case r of Inr x \<Rightarrow> x)"

text \<open>A day of source A whose only listed hour has a state the parser does not know.\<close>

definition unrecognised_doc :: gh_doc where
  "unrecognised_doc = [(''fact'', [(''data'', [(1736899200, [(''GPV1.1'', [(''1'', ''maybe'')])])])])]"

text \<open>
  A source A feed with three days in which group \<open>GPV1.1\<close> has data only under the
  latest day key.
\<close>

definition sparse_doc :: gh_doc where
  "sparse_doc =
     [(''fact'', [(''data'',
        [(1736899200, [(''GPV2.1'', [(''5'', ''no'')])]),
         (1736985600, [(''GPV2.1'', [(''6'', ''no'')])]),
         (1737072000, [(''GPV1.1'', [(''7'', ''no'')]), (''GPV2.1'', [(''7'', ''no'')])])])])]"

text \<open>A feed of each source for one group, with three and with two days.\<close>

definition sample_github_doc :: gh_doc where
  "sample_github_doc =
     [(''fact'', [(''data'',
        [(1736985600, [(''GPV1.1'', [(''3'', ''yes'')])]),
         (1736899200, [(''GPV1.1'', [(''5'', ''no''), (''6'', ''first'')])]),
         (1737072000, [(''GPV1.1'', [(''7'', ''no'')])])])])]"

definition sample_yasno_doc :: yasno_doc where
  "sample_yasno_doc =
     [(''1.1'',
       [(''today'', overlapping_day),
        (''tomorrow'', \<lparr>yd_date = Some ''2025-01-16T00:00:00+02:00'', yd_status = Some ''WaitingForSchedule'',
                         yd_slots = None\<rparr>)])]"

section \<open>Source merger\<close>

text \<open>
  The part of \<open>format_msg\<close> that handles one group and one date. \<open>format_day\<close> renders
  one day of one source from configuration texts; the merger only places its results,
  so it is a parameter here, as are the two display names of the sources.
\<close>

text \<open>The nested tests that set \<open>match\<close> in \<open>format_msg\<close>.\<close>

definition sources_match :: "day_schedule option \<Rightarrow> day_schedule option \<Rightarrow> bool" where
  "sources_match g_d y_d =
     (case g_d of
        None \<Rightarrow> False
      | Some g \<Rightarrow>
          (case y_d of
             None \<Rightarrow> False
           | Some y \<Rightarrow>
               if ds_status g = ''normal'' \<and> ds_status y = ''normal''
               then (if ds_slots g = ds_slots y then True else False)
               else False))"

text \<open>\<open>gh.get(grp, {}).get(d_str)\<close>, and the same for the other source.\<close>

definition snapshot_day :: "snapshot \<Rightarrow> string \<Rightarrow> string \<Rightarrow> day_schedule option" where
  "snapshot_day snap grp d_str = map_of (case map_of snap grp of None \<Rightarrow> [] | Some days \<Rightarrow> days) d_str"

text \<open>
  The list \<open>src_msgs\<close> built for one date. \<open>dt\<close> is \<open>(g_d or y_d)["date"]\<close>, which raises
  \<open>TypeError\<close> when both are \<open>None\<close>. On a match the label of source A is replaced by the
  combined label; otherwise each present source is appended, source A first.
\<close>

definition day_src_msgs ::
  "(day_schedule \<Rightarrow> datetime \<Rightarrow> string \<Rightarrow> string) \<Rightarrow> string \<Rightarrow> string
     \<Rightarrow> day_schedule option \<Rightarrow> day_schedule option \<Rightarrow> error + string list" where
  "day_src_msgs format_day gh_name ya_name g_d y_d =
     (case g_d of
        None \<Rightarrow>
          (case y_d of
             None \<Rightarrow> Inl TypeError
           | Some y \<Rightarrow> Inr [format_day y (ds_date y) ''yasno''])
      | Some g \<Rightarrow>
          let dt = ds_date g in
          if sources_match g_d y_d
          then Inr [replace_str (''['' @ gh_name @ '']'') (''['' @ gh_name @ '', '' @ ya_name @ '']'')
                      (format_day g dt ''github'')]
          else Inr (format_day g dt ''github''
                    # (case y_d of None \<Rightarrow> [] | Some y \<Rightarrow> [format_day y dt ''yasno''])))"

definition merge_date ::
  "(day_schedule \<Rightarrow> datetime \<Rightarrow> string \<Rightarrow> string) \<Rightarrow> string \<Rightarrow> string
     \<Rightarrow> snapshot \<Rightarrow> snapshot \<Rightarrow> string \<Rightarrow> string \<Rightarrow> error + string list" where
  "merge_date format_day gh_name ya_name gh ya grp d_str =
     day_src_msgs format_day gh_name ya_name (snapshot_day gh grp d_str) (snapshot_day ya grp d_str)"

text \<open>Two snapshots that differ in one slot of one day, and a renderer to show the order.\<close>

definition sample_format_day :: "day_schedule \<Rightarrow> datetime \<Rightarrow> string \<Rightarrow> string" where
  "sample_format_day d dt src = ''['' @ src @ '']: '' @ ds_status d"

definition sample_gh_snapshot :: snapshot where
  "sample_gh_snapshot =
     [(''GPV1.1'', [(''2025-01-15'',
        \<lparr>ds_slots = Some (replicate 48 True), ds_date = Datetime 2025 1 15, ds_status = ''normal''\<rparr>)])]"

definition sample_ya_snapshot :: snapshot where
  "sample_ya_snapshot =
     [(''GPV1.1'', [(''2025-01-15'',
        \<lparr>ds_slots = Some ((replicate 48 True)[5 := False]), ds_date = Datetime 2025 1 15, ds_status = ''normal''\<rparr>)])]"

section \<open>Change detector\<close>

text \<open>
  What \<open>serialize\<close> keeps of a day, \<open>{"status": ..., "slots": ...}\<close>, and the cache: source
  to group to date to such a day. The persisted cache is what \<open>json.load\<close> returns, a
  structure of the same shape.
\<close>

record cache_day =
  cd_status :: string
  cd_slots :: "bool list option"

type_synonym cache_state = "cache_day dict dict dict"

text \<open>The dictionary comprehension over \<open>d.items()\<close>, and the loop over \<open>s.items()\<close>.\<close>

definition serialize_days :: "day_schedule dict \<Rightarrow> cache_day dict" where
  "serialize_days d =
     foldl (\<lambda>m (k, v). AList.update k \<lparr>cd_status = ds_status v, cd_slots = ds_slots v\<rparr> m) [] d"

definition serialize :: "snapshot \<Rightarrow> cache_day dict dict" where
  "serialize s = foldl (\<lambda>r (g, d). AList.update g (serialize_days d) r) [] s"

definition new_cache :: "snapshot \<Rightarrow> snapshot \<Rightarrow> cache_state" where
  "new_cache gh_sched ya_sched = [(''github'', serialize gh_sched), (''yasno'', serialize ya_sched)]"

text \<open>
  Python's \<open>==\<close> on two dictionaries: the same number of entries, and every key of the
  left one is a key of the right one with an equal value. The values are compared by
  \<open>value_eq\<close>; a timeline is a list, compared element by element in order.
\<close>

definition dict_eq :: "('v \<Rightarrow> 'v \<Rightarrow> bool) \<Rightarrow> 'v dict \<Rightarrow> 'v dict \<Rightarrow> bool" where
  "dict_eq value_eq a b \<longleftrightarrow>
     length a = length b
     \<and> list_all (\<lambda>(k, v). case map_of b k of None \<Rightarrow> False | Some w \<Rightarrow> value_eq v w) a"

definition cache_eq :: "cache_state \<Rightarrow> cache_state \<Rightarrow> bool" where
  "cache_eq = dict_eq (dict_eq (dict_eq (=)))"

text \<open>The test \<open>new_c == old_c\<close> of \<open>main\<close>.\<close>

definition no_changes :: "snapshot \<Rightarrow> snapshot \<Rightarrow> cache_state \<Rightarrow> bool" where
  "no_changes gh_sched ya_sched old_c = cache_eq (new_cache gh_sched ya_sched) old_c"

text \<open>The keys of a dictionary are distinct, at each of the three levels of a cache.\<close>

definition keys_distinct :: "'v dict \<Rightarrow> bool" where
  "keys_distinct d \<longleftrightarrow> distinct (map fst d)"

definition groups_wf :: "cache_day dict dict \<Rightarrow> bool" where
  "groups_wf groups \<longleftrightarrow> keys_distinct groups \<and> list_all (\<lambda>(g, dates). keys_distinct dates) groups"

definition cache_wf :: "cache_state \<Rightarrow> bool" where
  "cache_wf c \<longleftrightarrow> keys_distinct c \<and> list_all (\<lambda>(s, groups). groups_wf groups) c"

text \<open>
  Reordering, in the specification's words: \<open>b\<close> holds the entries of \<open>a\<close> in some other
  order, the values reordered in turn by \<open>value_perm\<close>. In a cache the sources, the groups
  and the dates may be reordered, a day not.
\<close>

definition dict_perm :: "('v \<Rightarrow> 'v \<Rightarrow> bool) \<Rightarrow> 'v dict \<Rightarrow> 'v dict \<Rightarrow> bool" where
  "dict_perm value_perm a b \<longleftrightarrow>
     (\<exists>zs. mset zs = mset a \<and> list_all2 (\<lambda>(k, v) (k', v'). k = k' \<and> value_perm v v') zs b)"

definition cache_perm :: "cache_state \<Rightarrow> cache_state \<Rightarrow> bool" where
  "cache_perm = dict_perm (dict_perm (dict_perm (=)))"

text \<open>Flipping slot \<open>i\<close> of the timeline stored for one source, group and date.\<close>

definition map_entry :: "string \<Rightarrow> ('v \<Rightarrow> 'v) \<Rightarrow> 'v dict \<Rightarrow> 'v dict" where
  "map_entry k f d = map (\<lambda>(k', v). if k' = k then (k', f v) else (k', v)) d"

definition flip_day :: "nat \<Rightarrow> cache_day \<Rightarrow> cache_day" where
  "flip_day i day = day\<lparr>cd_slots := map_option (\<lambda>t. t[i := \<not> t ! i]) (cd_slots day)\<rparr>"

definition flip_slot :: "string \<Rightarrow> string \<Rightarrow> string \<Rightarrow> nat \<Rightarrow> cache_state \<Rightarrow> cache_state" where
  "flip_slot src grp d_str i c = map_entry src (map_entry grp (map_entry d_str (flip_day i))) c"

definition cache_timeline :: "cache_state \<Rightarrow> string \<Rightarrow> string \<Rightarrow> string \<Rightarrow> bool list option" where
  "cache_timeline c src grp d_str =
     (case map_of c src of
        None \<Rightarrow> None
      | Some groups \<Rightarrow>
          (case map_of groups grp of
             None \<Rightarrow> None
           | Some dates \<Rightarrow>
               (case map_of dates d_str of None \<Rightarrow> None | Some day \<Rightarrow> cd_slots day)))"

text \<open>
  Replacing the timeline stored for one source, group and date by another list; with a
  list of the same slots in another order this is a reordering of the timeline.
\<close>

definition set_timeline :: "string \<Rightarrow> string \<Rightarrow> string \<Rightarrow> bool list \<Rightarrow> cache_state \<Rightarrow> cache_state" where
  "set_timeline src grp d_str t c =
     map_entry src (map_entry grp (map_entry d_str (\<lambda>day. day\<lparr>cd_slots := Some t\<rparr>))) c"

text \<open>The cache of the two sample snapshots with its sources in the other order.\<close>

definition sample_old_cache :: cache_state where
  "sample_old_cache = [(''yasno'', serialize sample_ya_snapshot), (''github'', serialize sample_gh_snapshot)]"

section \<open>Properties of the text helpers\<close>

lemma digit_val_digit_char: "d < 10 \<Longrightarrow> digit_val (digit_char d) = d"
proof -
  assume "d < 10"
  then have "d \<in> {0,1,2,3,4,5,6,7,8,9}" by auto
  then show ?thesis by (auto simp: digit_val_def digit_char_def)
qed

lemma pad2_two_digits: "n < 100 \<Longrightarrow> pad2 n = [digit_char (n div 10), digit_char (n mod 10)]"
proof (cases "n < 10")
  case True
  then show ?thesis by (simp add: pad2_def str_nat.simps [of n] digit_char_def)
next
  case False
  assume "n < 100"
  with False have "n div 10 < 10" by simp
  with False show ?thesis by (simp add: pad2_def str_nat.simps [of n] str_nat.simps [of "n div 10"])
qed

lemma two_digit_val: "n < 100 \<Longrightarrow> 10 * digit_val (digit_char (n div 10)) + digit_val (digit_char (n mod 10)) = n"
proof -
  assume "n < 100"
  then have "n div 10 < 10" by linarith
  moreover have "n mod 10 < 10" by simp
  ultimately show ?thesis by (simp only: digit_val_digit_char) simp
qed

lemma format_slot_time_split:
  "h < 24 \<Longrightarrow> b < 2 \<Longrightarrow> format_slot_time (2 * h + b) = pad2 h @ '':'' @ pad2 (30 * b)"
proof -
  assume "h < 24" "b < 2"
  then have "(2 * h + b) * 30 = h * 60 + 30 * b" "30 * b < 60" by simp_all
  then have "(2 * h + b) * 30 div 60 = h" "(2 * h + b) * 30 mod 60 = 30 * b" by simp_all
  with \<open>h < 24\<close> show ?thesis by (simp only: format_slot_time_def Let_def) simp
qed

lemma slot_of_time_split:
  assumes "h < 100" "b < 2"
  shows "slot_of_time (pad2 h @ '':'' @ pad2 (30 * b)) = 2 * h + b"
proof -
  have m: "30 * b < 100" using assms by simp
  have "(10 * digit_val (digit_char (30 * b div 10)) + digit_val (digit_char (30 * b mod 10))) div 30 = b"
    unfolding two_digit_val [OF m] using assms by simp
  then show ?thesis
    using two_digit_val [OF assms(1)]
    by (simp add: slot_of_time_def pad2_two_digits [OF assms(1)] pad2_two_digits [OF m])
qed

lemma slot_of_time_format: "i \<le> 48 \<Longrightarrow> slot_of_time (format_slot_time i) = i"
proof (cases "i = 48")
  case True
  then show ?thesis by (simp add: format_slot_time_def slot_of_time_def digit_val_def)
next
  case False
  assume "i \<le> 48"
  with False have "i div 2 < 24" "i mod 2 < 2" by linarith+
  then have "slot_of_time (format_slot_time (2 * (i div 2) + i mod 2)) = 2 * (i div 2) + i mod 2"
    by (simp only: format_slot_time_split slot_of_time_split)
  then show ?thesis by simp
qed

section \<open>Properties of the period compressor\<close>

lemma expand_periods_append: "expand_periods (ps @ qs) = expand_periods ps @ expand_periods qs"
  by (simp add: expand_periods_def)

lemma expand_mk_period:
  "start \<le> 48 \<Longrightarrow> i \<le> 48 \<Longrightarrow> expand_periods [mk_period start i cur] = replicate (i - start) cur"
  by (simp add: expand_periods_def mk_period_def slot_of_time_format)

lemma periods_loop_expand:
  "start < i \<Longrightarrow> n = i + length rest \<Longrightarrow> n \<le> 48 \<Longrightarrow>
   expand_periods (periods_loop n i rest cur start periods)
     = expand_periods periods @ replicate (i - start) cur @ rest"
proof (induction rest arbitrary: i cur start periods)
  case Nil
  then show ?case by (simp add: expand_periods_append expand_mk_period)
next
  case (Cons s rest)
  show ?case
  proof (cases "s = cur")
    case True
    have "replicate (Suc i - start) cur = replicate (i - start) cur @ [cur]"
      using Cons.prems(1) by (simp add: Suc_diff_le replicate_append_same)
    with True Cons.prems Cons.IH [of start "Suc i" cur periods] show ?thesis by simp
  next
    case False
    with Cons.prems Cons.IH [of i "Suc i" s "periods @ [mk_period start i cur]"] show ?thesis
      by (simp add: expand_periods_append expand_mk_period)
  qed
qed

lemma tiling_append: "tiling a m ps \<Longrightarrow> tiling m b qs \<Longrightarrow> tiling a b (ps @ qs)"
  by (induction rule: tiling.induct) (auto intro: tiling.intros)

lemma tiling_mk_period: "start < i \<Longrightarrow> tiling start i [mk_period start i cur]"
  by (rule tiling_Cons [where m = i]) (auto simp: mk_period_def intro: tiling_Nil)

lemma periods_loop_tiling:
  "tiling 0 start periods \<Longrightarrow> start < i \<Longrightarrow> n = i + length rest \<Longrightarrow>
   tiling 0 n (periods_loop n i rest cur start periods)"
proof (induction rest arbitrary: i cur start periods)
  case Nil
  then show ?case by (auto intro: tiling_append tiling_mk_period)
next
  case (Cons s rest)
  show ?case
  proof (cases "s = cur")
    case True
    with Cons.prems Cons.IH [of start periods "Suc i" cur] show ?thesis by simp
  next
    case False
    have "tiling 0 i (periods @ [mk_period start i cur])"
      using Cons.prems by (auto intro: tiling_append tiling_mk_period)
    with False Cons.prems Cons.IH [of i "periods @ [mk_period start i cur]" "Suc i" s] show ?thesis by simp
  qed
qed

lemma periods_loop_alternate:
  "distinct_adj (map is_on periods @ [cur]) \<Longrightarrow>
   distinct_adj (map is_on (periods_loop n i rest cur start periods))"
proof (induction rest arbitrary: i cur start periods)
  case Nil
  then show ?case by (simp add: mk_period_def)
next
  case (Cons s rest)
  show ?case
  proof (cases "s = cur")
    case True
    with Cons show ?thesis by simp
  next
    case False
    have "distinct_adj (map is_on (periods @ [mk_period start i cur]) @ [s])"
      using Cons.prems False by (simp add: mk_period_def distinct_adj_append_iff)
    with False Cons.IH show ?thesis by simp
  qed
qed

lemma periods_loop_hours:
  "sum_list (map hours periods) = of_nat start * (1/2) \<Longrightarrow> start \<le> i \<Longrightarrow> n = i + length rest \<Longrightarrow>
   sum_list (map hours (periods_loop n i rest cur start periods)) = of_nat n * (1/2)"
proof (induction rest arbitrary: i cur start periods)
  case Nil
  then show ?case by (simp add: mk_period_def of_nat_diff field_simps)
next
  case (Cons s rest)
  show ?case
  proof (cases "s = cur")
    case True
    with Cons.prems Cons.IH [of periods start "Suc i" cur] show ?thesis by simp
  next
    case False
    have "sum_list (map hours (periods @ [mk_period start i cur])) = of_nat i * (1/2)"
      using Cons.prems by (simp add: mk_period_def of_nat_diff field_simps)
    with False Cons.prems Cons.IH [of "periods @ [mk_period start i cur]" i "Suc i" s] show ?thesis by simp
  qed
qed

text \<open>
  Claim C1. For every boolean sequence of length 48, compressing it with
  \<open>slots_to_periods\<close> and expanding the periods again, each period giving as many copies
  of its \<open>is_on\<close> value as there are slots between its start and its end, gives the
  sequence back.
\<close>

theorem slots_to_periods_roundtrip:
  "length slots = 48 \<Longrightarrow> expand_periods (slots_to_periods slots) = slots"
proof (cases slots)
  case Nil
  then show ?thesis by (simp add: slots_to_periods_def expand_periods_def)
next
  case (Cons s0 rest)
  assume "length slots = 48"
  with Cons periods_loop_expand [of 0 1 "length slots" rest s0 "[]"] show ?thesis
    by (simp add: slots_to_periods_def expand_periods_def)
qed

theorem slots_to_periods_roundtrip_witness:
  "length (replicate 16 True @ replicate 3 False @ replicate 29 True) = 48
   \<and> expand_periods (slots_to_periods (replicate 16 True @ replicate 3 False @ replicate 29 True))
       = replicate 16 True @ replicate 3 False @ replicate 29 True"
  using slots_to_periods_roundtrip [of "replicate 16 True @ replicate 3 False @ replicate 29 True"]
  by simp

text \<open>
  Claim C2. For every non-empty timeline the periods of \<open>slots_to_periods\<close> cover the
  slots from 0 to the length of the timeline contiguously, without gap or overlap,
  neighbouring periods differ in \<open>is_on\<close>, and the \<open>hours\<close> fields add up to half the
  length of the timeline.
\<close>

theorem slots_to_periods_coverage:
  "slots \<noteq> [] \<Longrightarrow>
     tiling 0 (length slots) (slots_to_periods slots)
   \<and> distinct_adj (map is_on (slots_to_periods slots))
   \<and> sum_list (map hours (slots_to_periods slots)) = of_nat (length slots) * (1/2)"
proof (cases slots)
  case Nil
  moreover assume "slots \<noteq> []"
  ultimately show ?thesis by simp
next
  case (Cons s0 rest)
  have "tiling 0 (length slots) (periods_loop (length slots) 1 rest s0 0 [])"
    using Cons by (intro periods_loop_tiling) (auto intro: tiling_Nil)
  moreover have "distinct_adj (map is_on (periods_loop (length slots) 1 rest s0 0 []))"
    by (intro periods_loop_alternate) simp
  moreover have "sum_list (map hours (periods_loop (length slots) 1 rest s0 0 [])) = of_nat (length slots) * (1/2)"
    using Cons by (intro periods_loop_hours) auto
  ultimately show ?thesis using Cons by (simp add: slots_to_periods_def)
qed

theorem slots_to_periods_coverage_witness:
  "[True, False, False] \<noteq> []
   \<and> tiling 0 (length [True, False, False]) (slots_to_periods [True, False, False])
   \<and> distinct_adj (map is_on (slots_to_periods [True, False, False]))
   \<and> sum_list (map hours (slots_to_periods [True, False, False])) = 3 / 2"
  using slots_to_periods_coverage [of "[True, False, False]"] by simp

section \<open>Properties of the hour count formatter\<close>

lemma str_nat_nonempty: "str_nat n \<noteq> []"
  by (subst str_nat.simps) simp

lemma last_str_nat: "last (str_nat n) = digit_char (n mod 10)"
  by (subst str_nat.simps) simp

lemma digit_char_inj: "a < 10 \<Longrightarrow> b < 10 \<Longrightarrow> digit_char a = digit_char b \<longleftrightarrow> a = b"
  using digit_val_digit_char by metis

lemma suffix_single: "suffix [a] ys \<longleftrightarrow> ys \<noteq> [] \<and> last ys = a"
proof (cases ys rule: rev_cases)
  case Nil
  then show ?thesis by simp
next
  case (snoc zs z)
  have "suffix ([] @ [a]) (zs @ [z]) \<longleftrightarrow> a = z" by (simp only: snoc_suffix_snoc) simp
  with snoc show ?thesis by auto
qed

lemma two_digit_eq:
  fixes x y a b :: nat
  assumes "y < 10" "b < 10"
  shows "(x = a \<and> y = b) \<longleftrightarrow> 10 * x + y = 10 * a + b"
proof
  assume "x = a \<and> y = b"
  then show "10 * x + y = 10 * a + b" by simp
next
  assume e: "10 * x + y = 10 * a + b"
  have "\<not> x < a" "\<not> a < x" using e assms by linarith+
  then have "x = a" by simp
  with e show "x = a \<and> y = b" by simp
qed

lemma two_digits_mod:
  fixes n a b :: nat
  assumes "b < 10"
  shows "(n div 10 mod 10 = a \<and> n mod 10 = b) \<longleftrightarrow> n mod 100 = 10 * a + b"
proof -
  have "n mod (10 * 10) = 10 * (n div 10 mod 10) + n mod 10"
    by (rule mod_mult2_eq)
  then have e: "n mod 100 = 10 * (n div 10 mod 10) + n mod 10" by simp
  show ?thesis unfolding e using assms by (intro two_digit_eq) simp_all
qed

lemma suffix_two_digits:
  assumes "a < 10" "b < 10"
  shows "suffix [digit_char a, digit_char b] (str_nat n) \<longleftrightarrow> 10 \<le> n \<and> n mod 100 = 10 * a + b"
proof (cases "n < 10")
  case True
  then have "str_nat n = [digit_char n]" by (subst str_nat.simps) simp
  with True show ?thesis by (simp add: suffix_def)
next
  case False
  then have s: "str_nat n = str_nat (n div 10) @ [digit_char (n mod 10)]" by (subst str_nat.simps) simp
  have "suffix ([digit_char a] @ [digit_char b]) (str_nat (n div 10) @ [digit_char (n mod 10)])
        \<longleftrightarrow> digit_char b = digit_char (n mod 10) \<and> suffix [digit_char a] (str_nat (n div 10))"
    by (rule snoc_suffix_snoc)
  then have "suffix [digit_char a, digit_char b] (str_nat n)
        \<longleftrightarrow> digit_char b = digit_char (n mod 10) \<and> last (str_nat (n div 10)) = digit_char a"
    by (simp add: s suffix_single str_nat_nonempty)
  also have "\<dots> \<longleftrightarrow> (n div 10 mod 10 = a \<and> n mod 10 = b)"
    using assms digit_char_inj [of b "n mod 10"] digit_char_inj [of "n div 10 mod 10" a]
    by (auto simp: last_str_nat)
  also have "\<dots> \<longleftrightarrow> n mod 100 = 10 * a + b"
    using assms(2) by (rule two_digits_mod)
  finally show ?thesis using False by simp
qed


lemma digit_char_literals:
  "CHR ''1'' = digit_char 1" "CHR ''2'' = digit_char 2" "CHR ''3'' = digit_char 3" "CHR ''4'' = digit_char 4"
  by (simp_all add: digit_char_def)

lemma last_digit_is: "d < 10 \<Longrightarrow> last (str_nat n) = digit_char d \<longleftrightarrow> n mod 10 = d"
  using digit_char_inj [of "n mod 10" d] by (simp add: last_str_nat)

lemma suffix_teen: "b < 10 \<Longrightarrow> suffix [digit_char 1, digit_char b] (str_nat n) \<longleftrightarrow> n mod 100 = 10 + b"
proof -
  assume b: "b < 10"
  have "n mod 100 = 10 + b \<Longrightarrow> 10 \<le> n"
    by (metis le_add1 mod_less_eq_dividend order_trans)
  then show ?thesis using suffix_two_digits [of 1 b n] b by auto
qed

lemma whole_word:
  "snd (format_hours_full (of_nat n)) =
     (if n mod 10 = 1 \<and> n mod 100 \<noteq> 11 then Hodyna
      else if n mod 10 \<in> {2, 3, 4} \<and> n mod 100 \<notin> {12, 13, 14} then Hodyny else Hodyn)"
proof -
  have p: "py_int (of_nat n) = int n" by (simp add: py_int_def)
  have m: "int n mod 10 = int (n mod 10)" "int n mod 100 = int (n mod 100)"
    by (simp_all add: zmod_int)
  have c: "int k = 1 \<longleftrightarrow> k = 1" "int k = 2 \<longleftrightarrow> k = 2" "int k = 3 \<longleftrightarrow> k = 3" "int k = 4 \<longleftrightarrow> k = 4"
     "int k = 11 \<longleftrightarrow> k = 11" "int k = 12 \<longleftrightarrow> k = 12" "int k = 13 \<longleftrightarrow> k = 13" "int k = 14 \<longleftrightarrow> k = 14" for k
    by linarith+
  show ?thesis unfolding format_hours_full_def p Let_def m by (simp add: c)
qed

lemma last_digit_literals:
  "last (str_nat n) = CHR ''1'' \<longleftrightarrow> n mod 10 = 1"
  "last (str_nat n) = CHR ''2'' \<longleftrightarrow> n mod 10 = 2"
  "last (str_nat n) = CHR ''3'' \<longleftrightarrow> n mod 10 = 3"
  "last (str_nat n) = CHR ''4'' \<longleftrightarrow> n mod 10 = 4"
  unfolding digit_char_literals
  using last_digit_is [of 1 n] last_digit_is [of 2 n] last_digit_is [of 3 n] last_digit_is [of 4 n]
  by simp_all

lemma suffix_teen_literals:
  "suffix ''11'' (str_nat n) \<longleftrightarrow> n mod 100 = 11"
  "suffix ''12'' (str_nat n) \<longleftrightarrow> n mod 100 = 12"
  "suffix ''13'' (str_nat n) \<longleftrightarrow> n mod 100 = 13"
  "suffix ''14'' (str_nat n) \<longleftrightarrow> n mod 100 = 14"
  unfolding digit_char_literals
  using suffix_teen [of 1 n] suffix_teen [of 2 n] suffix_teen [of 3 n] suffix_teen [of 4 n]
  by simp_all

lemma whole_rule:
  "agreement_rule (of_nat n) =
     (if n mod 10 = 1 \<and> n mod 100 \<noteq> 11 then Hodyna
      else if n mod 10 \<in> {2, 3, 4} \<and> n mod 100 \<notin> {12, 13, 14} then Hodyny else Hodyn)"
proof -
  have f: "nat \<lfloor>rat_of_nat n\<rfloor> = n" by simp
  have i: "rat_of_nat n \<in> \<int>" by simp
  show ?thesis unfolding agreement_rule_def Let_def f
    by (simp only: i last_digit_literals suffix_teen_literals insert_iff empty_iff) simp
qed

lemma fractional_word: "h \<notin> \<int> \<Longrightarrow> snd (format_hours_full h) = Hodyny"
proof -
  assume "h \<notin> \<int>"
  then have "h \<noteq> of_int (py_int h)" by (metis Ints_of_int)
  then show ?thesis by (simp add: format_hours_full_def)
qed

text \<open>
  Claim C9. For every hour value (a count of hours, so not negative),
  \<open>format_hours_full\<close> chooses the word by the agreement rule: a value with a
  fractional part takes \<open>Hodyny\<close>; a whole number whose numeral ends in 1 but not in 11
  takes \<open>Hodyna\<close>; one whose numeral ends in 2, 3 or 4 but not in 12, 13 or 14 takes
  \<open>Hodyny\<close>; every other whole number takes \<open>Hodyn\<close>.
\<close>

theorem format_hours_full_agreement:
  "0 \<le> h \<Longrightarrow> snd (format_hours_full h) = agreement_rule h"
proof (cases "h \<in> \<int>")
  case False
  then show ?thesis by (simp add: fractional_word agreement_rule_def)
next
  case True
  assume "0 \<le> h"
  with True obtain n where "h = of_nat n"
    by (metis Ints_cases of_int_0_le_iff of_int_of_nat_eq zero_le_imp_eq_int)
  then show ?thesis by (simp only: whole_word whole_rule)
qed

theorem format_hours_full_agreement_witness:
  "(0::rat) \<le> 21 \<and> snd (format_hours_full 21) = Hodyna \<and> agreement_rule 21 = Hodyna"
proof -
  have "snd (format_hours_full 21) = Hodyna" by (simp add: format_hours_full_def py_int_def)
  with format_hours_full_agreement [of 21] show ?thesis by simp
qed

section \<open>Properties of the source A parser\<close>

lemma foldl_extend: "foldl (\<lambda>acc h. acc @ f h) a hs = a @ concat (map f hs)"
  by (induction hs arbitrary: a) simp_all

lemma length_hour_slots: "length (hour_slots s) = 2"
  by (simp add: hour_slots_def)

lemma concat_pairs_length: "(\<And>h. length (f h) = 2) \<Longrightarrow> length (concat (map f hs)) = 2 * length hs"
  by (induction hs) simp_all

lemma concat_pairs_nth:
  assumes "\<And>h. length (f h) = 2" "k < length hs"
  shows "concat (map f hs) ! (2 * k) = f (hs ! k) ! 0 \<and> concat (map f hs) ! (2 * k + 1) = f (hs ! k) ! 1"
  using assms(2)
proof (induction hs arbitrary: k)
  case Nil
  then show ?case by simp
next
  case (Cons h hs)
  show ?case
  proof (cases k)
    case 0
    then show ?thesis using assms(1) [of h] by (simp add: nth_append)
  next
    case (Suc j)
    with Cons.prems have "j < length hs" by simp
    from Cons.IH [OF this] Suc assms(1) [of h] show ?thesis by (simp add: nth_append)
  qed
qed

lemma pair_list: "length xs = 2 \<Longrightarrow> [xs ! 0, xs ! 1] = xs"
  by (cases xs; cases "tl xs") auto

lemma parse_github_day_concat:
  "parse_github_day day_data = concat (map (\<lambda>h. hour_slots (hour_state day_data h)) [1..<25])"
  by (simp add: parse_github_day_def foldl_extend)

lemma length_parse_github_day: "length (parse_github_day day_data) = 48"
  unfolding parse_github_day_concat by (subst concat_pairs_length) (simp_all add: length_hour_slots)

text \<open>
  Claim C5. For every day of source A, \<open>parse_github_day\<close> returns exactly 48 slots,
  and each hour \<open>h\<close> from 1 to 24 gives the two slots \<open>2(h-1)\<close> and \<open>2(h-1)+1\<close> by the
  mapping yes to (on, on), no to (off, off), first to (off, on), second to (on, off);
  a missing hour key and an unrecognised state give (on, on), as yes does.
\<close>

theorem parse_github_day_slots:
  "length (parse_github_day day_data) = 48
   \<and> (\<forall>h. 1 \<le> h \<and> h \<le> 24 \<longrightarrow>
         [parse_github_day day_data ! (2 * (h - 1)), parse_github_day day_data ! (2 * (h - 1) + 1)]
           = (case map_of day_data (str_nat h) of
                None \<Rightarrow> [True, True]
              | Some s \<Rightarrow>
                  if s = ''yes'' then [True, True]
                  else if s = ''no'' then [False, False]
                  else if s = ''first'' then [False, True]
                  else if s = ''second'' then [True, False]
                  else [True, True]))"
proof -
  let ?f = "\<lambda>h. hour_slots (hour_state day_data h)"
  have p: "parse_github_day day_data = concat (map ?f [1..<25])"
    by (rule parse_github_day_concat)
  have len: "length (parse_github_day day_data) = 48"
    by (rule length_parse_github_day)
  have "[parse_github_day day_data ! (2 * (h - 1)), parse_github_day day_data ! (2 * (h - 1) + 1)]
          = hour_slots (hour_state day_data h)" if "1 \<le> h" "h \<le> 24" for h
  proof -
    have k: "h - 1 < length [1..<25]" "[1..<25] ! (h - 1) = h" using that by simp_all
    have "concat (map ?f [1..<25]) ! (2 * (h - 1)) = ?f ([1..<25] ! (h - 1)) ! 0
        \<and> concat (map ?f [1..<25]) ! (2 * (h - 1) + 1) = ?f ([1..<25] ! (h - 1)) ! 1"
      using k(1) by (intro concat_pairs_nth) (simp_all add: length_hour_slots)
    then have "[concat (map ?f [1..<25]) ! (2 * (h - 1)), concat (map ?f [1..<25]) ! (2 * (h - 1) + 1)]
        = [?f h ! 0, ?f h ! 1]"
      by (simp only: k(2))
    also have "\<dots> = ?f h" by (rule pair_list) (rule length_hour_slots)
    finally show ?thesis unfolding p .
  qed
  moreover have "hour_slots (hour_state day_data h) = (case map_of day_data (str_nat h) of
                None \<Rightarrow> [True, True]
              | Some s \<Rightarrow>
                  if s = ''yes'' then [True, True]
                  else if s = ''no'' then [False, False]
                  else if s = ''first'' then [False, True]
                  else if s = ''second'' then [True, False]
                  else [True, True])" for h
    by (simp add: hour_slots_def hour_state_def split: option.split)
  ultimately show ?thesis using len by simp
qed

lemma str_nat_5: "str_nat 5 = ''5''"
  by (simp add: str_nat.simps digit_char_def)

theorem parse_github_day_slots_witness:
  "(1::nat) \<le> 5 \<and> (5::nat) \<le> 24
   \<and> length (parse_github_day [(''5'', ''no'')]) = 48
   \<and> [parse_github_day [(''5'', ''no'')] ! 8, parse_github_day [(''5'', ''no'')] ! 9] = [False, False]"
proof -
  note t = parse_github_day_slots [of "[(''5'', ''no'')]"]
  from t [THEN conjunct2, THEN spec, of 5]
  have "[parse_github_day [(''5'', ''no'')] ! 8, parse_github_day [(''5'', ''no'')] ! 9] = [False, False]"
    by (simp add: str_nat_5)
  with t [THEN conjunct1] show ?thesis by simp
qed

section \<open>Properties of \<open>extract_github\<close>\<close>

lemma set_update_subset: "set (AList.update k v al) \<subseteq> insert (k, v) (set al)"
  by (induct al) auto

lemma length_update_le: "length (AList.update k v al) \<le> Suc (length al)"
  by (induct al) auto

lemma github_day_schedule_invariant: "day_invariant (github_day_schedule d dt)"
  by (simp add: github_day_schedule_def day_invariant_def length_parse_github_day)

lemma days_ok_update: "days_ok days \<Longrightarrow> day_invariant day \<Longrightarrow> days_ok (AList.update k day days)"
  using set_update_subset [of k day days] by (auto simp: days_ok_def)

lemma github_day_step_ok: "days_ok days \<Longrightarrow> days_ok (github_day_step facts grp days ts)"
  by (auto simp: github_day_step_def Let_def days_ok_update github_day_schedule_invariant split: option.splits)

lemma foldl_github_day_step_ok: "days_ok days \<Longrightarrow> days_ok (foldl (github_day_step facts grp) days tss)"
  by (induction tss arbitrary: days) (simp_all add: github_day_step_ok)

lemma github_group_ok: "days_ok (github_group facts grp)"
  unfolding github_group_def by (rule foldl_github_day_step_ok) (simp add: days_ok_def)

lemma snapshot_ok_update: "snapshot_ok snap \<Longrightarrow> days_ok days \<Longrightarrow> snapshot_ok (AList.update grp days snap)"
  using set_update_subset [of grp days snap] by (auto simp: snapshot_ok_def)

lemma set_snapshot_days:
  "day \<in> set (snapshot_days snap) \<longleftrightarrow> (\<exists>grp days k. (grp, days) \<in> set snap \<and> (k, day) \<in> set days)"
  by (force simp: snapshot_days_def)

lemma snapshot_ok_days: "snapshot_ok snap \<longleftrightarrow> list_all day_invariant (snapshot_days snap)"
proof
  assume ok: "snapshot_ok snap"
  show "list_all day_invariant (snapshot_days snap)"
    unfolding list_all_iff
  proof
    fix day
    assume "day \<in> set (snapshot_days snap)"
    then obtain grp days k where "(grp, days) \<in> set snap" "(k, day) \<in> set days"
      unfolding set_snapshot_days by blast
    with ok show "day_invariant day" unfolding snapshot_ok_def days_ok_def by fast
  qed
next
  assume a: "list_all day_invariant (snapshot_days snap)"
  have "day_invariant day" if "(grp, days) \<in> set snap" "(k, day) \<in> set days" for grp days k day
  proof -
    from that have "day \<in> set (snapshot_days snap)" unfolding set_snapshot_days by blast
    with a show ?thesis unfolding list_all_iff by blast
  qed
  then show "snapshot_ok snap" unfolding snapshot_ok_def days_ok_def by fast
qed

lemma foldl_groups_ok:
  "snapshot_ok res \<Longrightarrow> snapshot_ok (foldl (\<lambda>res grp. AList.update grp (github_group facts grp) res) res groups)"
  by (induction groups arbitrary: res) (simp_all add: snapshot_ok_update github_group_ok)

lemma extract_github_ok: "snapshot_ok (extract_github data groups)"
proof -
  have e: "snapshot_ok []" by (simp add: snapshot_ok_def)
  show ?thesis
    by (simp add: extract_github_def Let_def e foldl_groups_ok split: option.split)
qed

lemma map_of_foldl_groups:
  "map_of (foldl (\<lambda>res grp. AList.update grp (f grp) res) res groups) g
     = (if g \<in> set groups then Some (f g) else map_of res g)"
  by (induction groups arbitrary: res) (simp_all add: update_conv')

lemma map_of_extract_github:
  "doc \<noteq> [] \<Longrightarrow> map_of (extract_github (Some doc) groups) grp
     = (if grp \<in> set groups then Some (github_group (github_fact doc) grp) else None)"
  by (simp add: extract_github_def Let_def map_of_foldl_groups)

lemma github_day_step_keys:
  "fst ` set (github_day_step facts grp days ts)
     = fst ` set days \<union> (if has_data facts grp ts then {date_key ts} else {})"
  by (auto simp: github_day_step_def has_data_def date_key_def Let_def dom_update split: option.splits)

lemma foldl_github_day_step_keys:
  "fst ` set (foldl (github_day_step facts grp) days tss)
     = fst ` set days \<union> date_key ` {ts \<in> set tss. has_data facts grp ts}"
proof (induction tss arbitrary: days)
  case Nil
  show ?case by simp
next
  case (Cons ts tss)
  show ?case unfolding foldl_Cons Cons.IH github_day_step_keys by auto
qed

lemma github_day_step_length: "length (github_day_step facts grp days ts) \<le> Suc (length days)"
  using length_update_le [of _ _ days]
  by (auto simp: github_day_step_def Let_def split: option.splits)

lemma foldl_github_day_step_length:
  "length (foldl (github_day_step facts grp) days tss) \<le> length days + length tss"
proof (induction tss arbitrary: days)
  case Nil
  show ?case by simp
next
  case (Cons ts tss)
  have "length (foldl (github_day_step facts grp) (github_day_step facts grp days ts) tss)
          \<le> length (github_day_step facts grp days ts) + length tss" by (rule Cons.IH)
  with github_day_step_length [of facts grp days ts] show ?case by simp
qed

lemma github_day_step_distinct:
  "distinct (map fst days) \<Longrightarrow> distinct (map fst (github_day_step facts grp days ts))"
  by (auto simp: github_day_step_def Let_def distinct_update split: option.splits)

lemma foldl_github_day_step_distinct:
  "distinct (map fst days) \<Longrightarrow> distinct (map fst (foldl (github_day_step facts grp) days tss))"
  by (induction tss arbitrary: days) (simp_all add: github_day_step_distinct)

lemma github_group_dates:
  "length (github_group facts grp) \<le> 2
   \<and> distinct (map fst (github_group facts grp))
   \<and> fst ` set (github_group facts grp)
       = date_key ` {ts \<in> set (take 2 (sort (map fst facts))). has_data facts grp ts}"
proof -
  have "length (github_group facts grp) \<le> length ([] :: day_schedule dict) + length (take 2 (sort (map fst facts)))"
    unfolding github_group_def by (rule foldl_github_day_step_length)
  then have "length (github_group facts grp) \<le> 2" by simp
  moreover have "distinct (map fst (github_group facts grp))"
    unfolding github_group_def by (rule foldl_github_day_step_distinct) simp
  moreover have "fst ` set (github_group facts grp)
       = date_key ` {ts \<in> set (take 2 (sort (map fst facts))). has_data facts grp ts}"
    unfolding github_group_def foldl_github_day_step_keys by simp
  ultimately show ?thesis by simp
qed

section \<open>Properties of \<open>extract_yasno\<close>\<close>

lemma list_set_length: "list_set xs i v = Inr ys \<Longrightarrow> length ys = length xs"
  by (auto simp: list_set_def Let_def split: if_splits)

lemma set_slots_length: "set_slots slots is on = Inr slots' \<Longrightarrow> length slots' = length slots"
proof (induction "is" arbitrary: slots)
  case Nil
  then show ?case by simp
next
  case (Cons i "is")
  then show ?case by (auto split: sum.splits dest: list_set_length)
qed

lemma apply_interval_length: "apply_interval slots s = Inr slots' \<Longrightarrow> length slots' = length slots"
  unfolding apply_interval_def Let_def by (rule set_slots_length)

lemma apply_intervals_length: "apply_intervals slots ivs = Inr slots' \<Longrightarrow> length slots' = length slots"
proof (induction ivs arbitrary: slots)
  case Nil
  then show ?case by simp
next
  case (Cons s ivs)
  then show ?case by (auto split: sum.splits dest: apply_interval_length)
qed

lemma yasno_day_schedule_invariant: "yasno_day_schedule d dt = Inr sched \<Longrightarrow> day_invariant sched"
  by (auto simp: yasno_day_schedule_def day_invariant_def Let_def
           split: if_splits option.splits sum.splits dest: apply_intervals_length)

lemma yasno_day_step_ok: "yasno_day_step entry days day = Inr days' \<Longrightarrow> days_ok days \<Longrightarrow> days_ok days'"
  by (auto simp: yasno_day_step_def Let_def split: option.splits sum.splits
           intro: days_ok_update yasno_day_schedule_invariant)

lemma yasno_group_ok: "yasno_group entry = Inr days \<Longrightarrow> days_ok days"
proof -
  assume a: "yasno_group entry = Inr days"
  then obtain days1 where 1: "yasno_day_step entry [] ''today'' = Inr days1"
    and 2: "yasno_day_step entry days1 ''tomorrow'' = Inr days"
    by (auto simp: yasno_group_def split: sum.splits)
  have "days_ok []" by (simp add: days_ok_def)
  with 1 have "days_ok days1" by (rule yasno_day_step_ok)
  with 2 show ?thesis by (rule yasno_day_step_ok)
qed

lemma yasno_groups_ok: "yasno_groups doc res groups = Inr res' \<Longrightarrow> snapshot_ok res \<Longrightarrow> snapshot_ok res'"
proof (induction groups arbitrary: res)
  case Nil
  then show ?case by simp
next
  case (Cons grp groups)
  then show ?case
    by (auto split: option.splits sum.splits intro: snapshot_ok_update yasno_group_ok)
qed

lemma extract_yasno_ok: "extract_yasno data groups = Inr res \<Longrightarrow> snapshot_ok res"
proof -
  assume a: "extract_yasno data groups = Inr res"
  have e: "snapshot_ok []" by (simp add: snapshot_ok_def)
  show ?thesis
  proof (cases "data = None \<or> data = Some []")
    case True
    with a e show ?thesis by (auto simp: extract_yasno_def)
  next
    case False
    then obtain doc where "data = Some doc" "doc \<noteq> []" by auto
    with a have "yasno_groups doc [] groups = Inr res" by (simp add: extract_yasno_def)
    then show ?thesis using e by (rule yasno_groups_ok)
  qed
qed

lemma set_slots_in_range:
  "\<forall>i \<in> set is. 0 \<le> i \<and> i < int (length slots) \<Longrightarrow>
   set_slots slots is on = Inr (map (\<lambda>k. if int k \<in> set is then on else slots ! k) [0..<length slots])"
proof (induction "is" arbitrary: slots)
  case Nil
  show ?case by (simp add: map_nth)
next
  case (Cons i "is")
  from Cons.prems have i: "0 \<le> i" "i < int (length slots)" by simp_all
  then have ls: "list_set slots i on = Inr (slots[nat i := on])" by (simp add: list_set_def)
  have "\<forall>j \<in> set is. 0 \<le> j \<and> j < int (length (slots[nat i := on]))" using Cons.prems by simp
  from Cons.IH [OF this]
  have "set_slots (slots[nat i := on]) is on
          = Inr (map (\<lambda>k. if int k \<in> set is then on else slots[nat i := on] ! k) [0..<length slots])"
    by simp
  also have "map (\<lambda>k. if int k \<in> set is then on else slots[nat i := on] ! k) [0..<length slots]
          = map (\<lambda>k. if int k \<in> set (i # is) then on else slots ! k) [0..<length slots]"
  proof (rule map_cong [OF refl])
    fix k assume "k \<in> set [0..<length slots]"
    then have k: "k < length slots" by simp
    have "int k = i \<longleftrightarrow> k = nat i" using i by linarith
    then show "(if int k \<in> set is then on else slots[nat i := on] ! k)
             = (if int k \<in> set (i # is) then on else slots ! k)"
      using k by (auto simp: nth_list_update)
  qed
  finally show ?case using ls by simp
qed

lemma covers_range:
  assumes "0 \<le> minute_or_0 (iv_start s)" "k < 48"
  shows "int k \<in> set [minute_or_0 (iv_start s) div 30..min (minute_or_0 (iv_end s) div 30) 48 - 1] \<longleftrightarrow> covers k s"
proof -
  have "0 \<le> minute_or_0 (iv_start s) div 30" using assms(1) by (simp add: pos_imp_zdiv_nonneg_iff)
  then show ?thesis using assms(2) by (auto simp: covers_def clamp_slot_def)
qed

lemma apply_interval_covers:
  assumes "0 \<le> minute_or_0 (iv_start s)" "length slots = 48"
  shows "apply_interval slots s
          = Inr (map (\<lambda>k. if covers k s then iv_type s = Some ''NotPlanned'' else slots ! k) [0..<48])"
proof -
  let ?r = "[minute_or_0 (iv_start s) div 30..min (minute_or_0 (iv_end s) div 30) 48 - 1]"
  have "0 \<le> minute_or_0 (iv_start s) div 30" using assms(1) by (simp add: pos_imp_zdiv_nonneg_iff)
  then have "\<forall>i \<in> set ?r. 0 \<le> i \<and> i < int (length slots)" using assms(2) by auto
  from set_slots_in_range [OF this]
  have "apply_interval slots s
          = Inr (map (\<lambda>k. if int k \<in> set ?r then iv_type s = Some ''NotPlanned'' else slots ! k) [0..<48])"
    by (simp add: apply_interval_def Let_def assms(2))
  also have "map (\<lambda>k. if int k \<in> set ?r then iv_type s = Some ''NotPlanned'' else slots ! k) [0..<48]
           = map (\<lambda>k. if covers k s then iv_type s = Some ''NotPlanned'' else slots ! k) [0..<48]"
  proof (rule map_cong [OF refl])
    fix k :: nat assume "k \<in> set [0..<48]"
    then have "k < 48" by simp
    from covers_range [OF assms(1) this]
    show "(if int k \<in> set ?r then iv_type s = Some ''NotPlanned'' else slots ! k)
        = (if covers k s then iv_type s = Some ''NotPlanned'' else slots ! k)" by simp
  qed
  finally show ?thesis .
qed

lemma apply_intervals_last_write:
  assumes "\<forall>s \<in> set ivs. 0 \<le> minute_or_0 (iv_start s)" "length slots = 48"
  shows "apply_intervals slots ivs
          = Inr (map (\<lambda>k. case filter (covers k) ivs of
                             [] \<Rightarrow> slots ! k
                           | c # cs \<Rightarrow> iv_type (last (c # cs)) = Some ''NotPlanned'') [0..<48])"
  using assms
proof (induction ivs arbitrary: slots)
  case Nil
  then show ?case using map_nth [of slots] by simp
next
  case (Cons s ivs)
  let ?slots' = "map (\<lambda>k. if covers k s then iv_type s = Some ''NotPlanned'' else slots ! k) [0..<48]"
  have a: "apply_interval slots s = Inr ?slots'"
    using Cons.prems by (intro apply_interval_covers) simp_all
  have "apply_intervals ?slots' ivs
          = Inr (map (\<lambda>k. case filter (covers k) ivs of
                             [] \<Rightarrow> ?slots' ! k
                           | c # cs \<Rightarrow> iv_type (last (c # cs)) = Some ''NotPlanned'') [0..<48])"
    using Cons.prems by (intro Cons.IH) simp_all
  also have "map (\<lambda>k. case filter (covers k) ivs of
                             [] \<Rightarrow> ?slots' ! k
                           | c # cs \<Rightarrow> iv_type (last (c # cs)) = Some ''NotPlanned'') [0..<48]
           = map (\<lambda>k. case filter (covers k) (s # ivs) of
                             [] \<Rightarrow> slots ! k
                           | c # cs \<Rightarrow> iv_type (last (c # cs)) = Some ''NotPlanned'') [0..<48]"
  proof (rule map_cong [OF refl])
    fix k :: nat assume "k \<in> set [0..<48]"
    then have k: "k < 48" by simp
    then have n: "?slots' ! k = (if covers k s then iv_type s = Some ''NotPlanned'' else slots ! k)"
      by (simp del: upt_Suc)
    show "(case filter (covers k) ivs of [] \<Rightarrow> ?slots' ! k
             | c # cs \<Rightarrow> iv_type (last (c # cs)) = Some ''NotPlanned'')
        = (case filter (covers k) (s # ivs) of [] \<Rightarrow> slots ! k
             | c # cs \<Rightarrow> iv_type (last (c # cs)) = Some ''NotPlanned'')"
      unfolding n by (cases "filter (covers k) ivs") simp_all
  qed
  finally show ?case using a by simp
qed

lemma apply_intervals_spec:
  assumes "\<forall>s \<in> set ivs. 0 \<le> minute_or_0 (iv_start s)"
  shows "apply_intervals (replicate 48 True) ivs = Inr (spec_timeline ivs)"
proof -
  have "apply_intervals (replicate 48 True) ivs
          = Inr (map (\<lambda>k. case filter (covers k) ivs of
                             [] \<Rightarrow> replicate 48 True ! k
                           | c # cs \<Rightarrow> iv_type (last (c # cs)) = Some ''NotPlanned'') [0..<48])"
    using assms by (intro apply_intervals_last_write) simp_all
  also have "map (\<lambda>k. case filter (covers k) ivs of
                             [] \<Rightarrow> replicate 48 True ! k
                           | c # cs \<Rightarrow> iv_type (last (c # cs)) = Some ''NotPlanned'') [0..<48]
           = map (last_write_wins ivs) [0..<48]"
  proof (rule map_cong [OF refl])
    fix k :: nat assume "k \<in> set [0..<48]"
    then have r: "replicate 48 True ! k = True" by simp
    show "(case filter (covers k) ivs of [] \<Rightarrow> replicate 48 True ! k
                 | c # cs \<Rightarrow> iv_type (last (c # cs)) = Some ''NotPlanned'') = last_write_wins ivs k"
      by (simp only: last_write_wins_def r)
  qed
  finally show ?thesis by (simp add: spec_timeline_def)
qed

text \<open>
  Claim C4, as amended. For every day of source B with at least one interval, a status
  other than the emergency tag, and no interval with a negative start minute,
  \<open>extract_yasno\<close> stores the status \<open>normal\<close> and the timeline that starts all on and
  in which an interval sets the slots from \<open>start_minute div 30\<close> up to, not including,
  \<open>end_minute div 30\<close> clamped to the range 0 to 48: on when its type is \<open>NotPlanned\<close>,
  off otherwise, the last interval in input order winning where intervals overlap.
\<close>

theorem yasno_timeline_last_write_wins:
  assumes "yd_slots d = Some ivs" "ivs \<noteq> []" "yd_status d \<noteq> Some ''EmergencyShutdowns''"
    and "\<forall>s \<in> set ivs. 0 \<le> minute_or_0 (iv_start s)"
  shows "yasno_day_schedule d dt
           = Inr \<lparr>ds_slots = Some (spec_timeline ivs), ds_date = dt, ds_status = ''normal''\<rparr>"
  using assms(1-3) apply_intervals_spec [OF assms(4)]
  by (auto simp: yasno_day_schedule_def Let_def split: option.splits)

theorem yasno_timeline_last_write_wins_witness:
  "yd_slots overlapping_day = Some overlapping_intervals
   \<and> overlapping_intervals \<noteq> []
   \<and> yd_status overlapping_day \<noteq> Some ''EmergencyShutdowns''
   \<and> list_all (\<lambda>s. 0 \<le> minute_or_0 (iv_start s)) overlapping_intervals
   \<and> yasno_day_schedule overlapping_day (Datetime 2025 1 15)
       = Inr \<lparr>ds_slots = Some (spec_timeline overlapping_intervals),
              ds_date = Datetime 2025 1 15, ds_status = ''normal''\<rparr>
   \<and> spec_timeline overlapping_intervals = replicate 16 True @ replicate 4 False @ replicate 28 True"
proof -
  have h: "yd_slots overlapping_day = Some overlapping_intervals" "overlapping_intervals \<noteq> []"
    "yd_status overlapping_day \<noteq> Some ''EmergencyShutdowns''"
    "\<forall>s \<in> set overlapping_intervals. 0 \<le> minute_or_0 (iv_start s)"
    by (simp_all add: overlapping_day_def overlapping_intervals_def minute_or_0_def)
  have s: "spec_timeline overlapping_intervals = replicate 16 True @ replicate 4 False @ replicate 28 True"
    by code_simp
  from yasno_timeline_last_write_wins [OF h, of "Datetime 2025 1 15"] h s show ?thesis
    by (simp add: list_all_iff)
qed

text \<open>
  Claim C4 as stated fails for an interval that starts before minute 0: the source
  clamps only the end (\<open>min(end, 48)\<close>), the start slot \<open>-1\<close> is a Python index
  counted from the end of the list, and slot 47 is switched off besides slot 0.
\<close>

theorem yasno_timeline_counterexample:
  "yd_slots negative_start_day = Some negative_start_intervals
   \<and> negative_start_intervals \<noteq> []
   \<and> yd_status negative_start_day \<noteq> Some ''EmergencyShutdowns''
   \<and> yasno_day_schedule negative_start_day (Datetime 2025 1 15)
       \<noteq> Inr \<lparr>ds_slots = Some (spec_timeline negative_start_intervals),
               ds_date = Datetime 2025 1 15, ds_status = ''normal''\<rparr>
   \<and> spec_timeline negative_start_intervals = False # replicate 47 True
   \<and> yasno_day_schedule negative_start_day (Datetime 2025 1 15)
       = Inr \<lparr>ds_slots = Some (False # replicate 46 True @ [False]),
              ds_date = Datetime 2025 1 15, ds_status = ''normal''\<rparr>"
  by code_simp

section \<open>Pending days, retained dates, status exclusivity\<close>

lemma all_hours_yes_iff:
  "list_all (\<lambda>h. hour_state d h = ''yes'') [1..<25]
     \<longleftrightarrow> (\<forall>h. 1 \<le> h \<and> h \<le> 24 \<longrightarrow> map_of d (str_nat h) = None \<or> map_of d (str_nat h) = Some ''yes'')"
proof -
  have "hour_state d h = ''yes'' \<longleftrightarrow> map_of d (str_nat h) = None \<or> map_of d (str_nat h) = Some ''yes''" for h
    by (simp add: hour_state_def split: option.split)
  moreover have "h \<in> set [1..<25] \<longleftrightarrow> 1 \<le> h \<and> h \<le> 24" for h :: nat by auto
  ultimately show ?thesis unfolding list_all_iff by blast
qed

text \<open>
  Claim C6, as amended. For every day of source A in \<open>extract_github\<close>, if every hour
  from 1 to 24 is yes, literally or because its key is missing, the day schedule that is
  stored has status \<open>pending\<close> and no timeline; otherwise it has status \<open>normal\<close> and
  the timeline of \<open>parse_github_day\<close>.
\<close>

theorem github_pending_when_all_yes:
  "github_day_schedule d dt =
     (if \<forall>h. 1 \<le> h \<and> h \<le> 24 \<longrightarrow> map_of d (str_nat h) = None \<or> map_of d (str_nat h) = Some ''yes''
      then \<lparr>ds_slots = None, ds_date = dt, ds_status = ''pending''\<rparr>
      else \<lparr>ds_slots = Some (parse_github_day d), ds_date = dt, ds_status = ''normal''\<rparr>)"
  unfolding github_day_schedule_def all_hours_yes_iff ..

theorem github_pending_when_all_yes_witness:
  "list_all (\<lambda>h. map_of [(''3'', ''yes'')] (str_nat h) = None
                     \<or> map_of [(''3'', ''yes'')] (str_nat h) = Some ''yes'') [1..<25]
   \<and> github_day_schedule [(''3'', ''yes'')] (Datetime 2025 1 16)
       = \<lparr>ds_slots = None, ds_date = Datetime 2025 1 16, ds_status = ''pending''\<rparr>"
proof -
  have a: "\<forall>h. 1 \<le> h \<and> h \<le> 24 \<longrightarrow> map_of [(''3'', ''yes'')] (str_nat h) = None
        \<or> map_of [(''3'', ''yes'')] (str_nat h) = Some ''yes''"
    by simp
  then have "github_day_schedule [(''3'', ''yes'')] (Datetime 2025 1 16)
       = \<lparr>ds_slots = None, ds_date = Datetime 2025 1 16, ds_status = ''pending''\<rparr>"
    using github_pending_when_all_yes [of "[(''3'', ''yes'')]" "Datetime 2025 1 16"] by presburger
  then show ?thesis by (simp add: list_all_iff)
qed

text \<open>
  Claim C6 as stated fails for an hour with an unrecognised state: it expands to
  (on, on) as yes does, but the test \<open>== "yes"\<close> that decides \<open>pending\<close> is false for
  it, and the day is stored as \<open>normal\<close> with an all-on timeline.
\<close>

theorem github_pending_counterexample:
  "every_hour_resolves_to_yes [(''1'', ''maybe'')]
   \<and> github_day_schedule [(''1'', ''maybe'')] (Datetime 2025 1 15)
       = \<lparr>ds_slots = Some (replicate 48 True), ds_date = Datetime 2025 1 15, ds_status = ''normal''\<rparr>
   \<and> extract_github (Some unrecognised_doc) [''GPV1.1'']
       = [(''GPV1.1'', [(''2025-01-15'',
            \<lparr>ds_slots = Some (replicate 48 True), ds_date = Datetime 2025 1 15, ds_status = ''normal''\<rparr>)])]"
  by code_simp

lemma yasno_day_step_keys:
  assumes "yasno_day_step entry days day = Inr days'"
  shows "fst ` set days' = fst ` set days \<union> set_option (yasno_day_key entry day)"
proof (cases "yasno_day_key entry day")
  case None
  then have "days' = days"
    using assms by (auto simp: yasno_day_step_def yasno_day_key_def split: option.splits)
  with None show ?thesis by simp
next
  case (Some k)
  then obtain d date_text where d: "map_of entry day = Some d" "yd_date d = Some date_text"
      "k = strftime_ymd (fromisoformat date_text)"
    by (auto simp: yasno_day_key_def split: option.splits)
  with assms obtain sched where "days' = AList.update k sched days"
    by (auto simp: yasno_day_step_def Let_def split: sum.splits)
  then show ?thesis using Some by (simp add: dom_update)
qed

lemma yasno_day_step_length:
  "yasno_day_step entry days day = Inr days' \<Longrightarrow> length days' \<le> Suc (length days)"
  using length_update_le [of _ _ days]
  by (auto simp: yasno_day_step_def Let_def split: option.splits sum.splits)

lemma yasno_day_step_distinct:
  "yasno_day_step entry days day = Inr days' \<Longrightarrow> distinct (map fst days) \<Longrightarrow> distinct (map fst days')"
  by (auto simp: yasno_day_step_def Let_def distinct_update split: option.splits sum.splits)

lemma yasno_group_dates:
  assumes "yasno_group entry = Inr days"
  shows "length days \<le> 2 \<and> distinct (map fst days)
         \<and> fst ` set days = set_option (yasno_day_key entry ''today'') \<union> set_option (yasno_day_key entry ''tomorrow'')"
proof -
  from assms obtain days1 where 1: "yasno_day_step entry [] ''today'' = Inr days1"
    and 2: "yasno_day_step entry days1 ''tomorrow'' = Inr days"
    by (auto simp: yasno_group_def split: sum.splits)
  from yasno_day_step_length [OF 1] yasno_day_step_length [OF 2] have "length days \<le> 2" by simp
  moreover from yasno_day_step_distinct [OF 1] have "distinct (map fst days1)" by simp
  with yasno_day_step_distinct [OF 2] have "distinct (map fst days)" .
  moreover from yasno_day_step_keys [OF 1] yasno_day_step_keys [OF 2]
  have "fst ` set days = set_option (yasno_day_key entry ''today'') \<union> set_option (yasno_day_key entry ''tomorrow'')"
    by simp
  ultimately show ?thesis by simp
qed

lemma yasno_groups_lookup:
  "yasno_groups doc res groups = Inr res' \<Longrightarrow> map_of res' grp = Some days \<Longrightarrow>
   map_of res grp = Some days
   \<or> (\<exists>entry. map_of doc (replace_str ''GPV'' [] grp) = Some entry \<and> yasno_group entry = Inr days)"
proof (induction groups arbitrary: res)
  case Nil
  then show ?case by simp
next
  case (Cons g groups)
  show ?case
  proof (cases "map_of doc (replace_str ''GPV'' [] g)")
    case None
    with Cons.prems Cons.IH [of res] show ?thesis by simp
  next
    case (Some entry)
    with Cons.prems(1) obtain gdays where g: "yasno_group entry = Inr gdays"
      and r: "yasno_groups doc (AList.update g gdays res) groups = Inr res'"
      by (auto split: sum.splits)
    from Cons.IH [OF r Cons.prems(2)] show ?thesis
    proof
      assume "map_of (AList.update g gdays res) grp = Some days"
      then show ?thesis using Some g by (auto simp: update_conv' split: if_splits)
    next
      assume "\<exists>entry. map_of doc (replace_str ''GPV'' [] grp) = Some entry \<and> yasno_group entry = Inr days"
      then show ?thesis by simp
    qed
  qed
qed

lemma extract_yasno_lookup:
  assumes "extract_yasno data groups = Inr res" "map_of res grp = Some days"
  shows "\<exists>doc entry. data = Some doc \<and> map_of doc (replace_str ''GPV'' [] grp) = Some entry
           \<and> yasno_group entry = Inr days"
proof (cases "data = None \<or> data = Some []")
  case True
  with assms show ?thesis by (auto simp: extract_yasno_def)
next
  case False
  then obtain doc where d: "data = Some doc" "doc \<noteq> []" by auto
  with assms(1) have "yasno_groups doc [] groups = Inr res" by (simp add: extract_yasno_def)
  from yasno_groups_lookup [OF this assms(2)] d show ?thesis by simp
qed

text \<open>
  Claim C7, as amended. For each source and each group the snapshot holds at most two
  dates. For source A they are the dates of those among the two smallest day keys of the
  whole feed under which the group has non-empty data; every later day key is
  discarded, also when the group has no data under one of the first two. For source B
  they are the dates of the group's \<open>today\<close> and \<open>tomorrow\<close> entries that carry a date.
\<close>

theorem snapshot_two_dates:
  "(doc \<noteq> [] \<and> map_of (extract_github (Some doc) groups) grp = Some days \<longrightarrow>
      length days \<le> 2 \<and> distinct (map fst days)
      \<and> fst ` set days
          = date_key ` {ts \<in> set (take 2 (sort (map fst (github_fact doc)))). has_data (github_fact doc) grp ts})
   \<and> (extract_yasno ya_data groups = Inr res \<and> map_of res grp = Some ya_days \<longrightarrow>
      length ya_days \<le> 2 \<and> distinct (map fst ya_days)
      \<and> (\<exists>ya_doc entry. ya_data = Some ya_doc \<and> map_of ya_doc (replace_str ''GPV'' [] grp) = Some entry
            \<and> fst ` set ya_days
                = set_option (yasno_day_key entry ''today'') \<union> set_option (yasno_day_key entry ''tomorrow'')))"
proof (intro conjI impI)
  assume a: "doc \<noteq> [] \<and> map_of (extract_github (Some doc) groups) grp = Some days"
  then have "days = github_group (github_fact doc) grp"
    by (auto simp: map_of_extract_github split: if_splits)
  with github_group_dates [of "github_fact doc" grp]
  show "length days \<le> 2" "distinct (map fst days)"
    "fst ` set days
          = date_key ` {ts \<in> set (take 2 (sort (map fst (github_fact doc)))). has_data (github_fact doc) grp ts}"
    by simp_all
next
  assume b: "extract_yasno ya_data groups = Inr res \<and> map_of res grp = Some ya_days"
  then obtain ya_doc entry where e: "ya_data = Some ya_doc"
      "map_of ya_doc (replace_str ''GPV'' [] grp) = Some entry" "yasno_group entry = Inr ya_days"
    using extract_yasno_lookup [of ya_data groups res grp ya_days] by blast
  from yasno_group_dates [OF e(3)]
  show "length ya_days \<le> 2" "distinct (map fst ya_days)" by simp_all
  from yasno_group_dates [OF e(3)] e(1,2)
  show "\<exists>ya_doc entry. ya_data = Some ya_doc \<and> map_of ya_doc (replace_str ''GPV'' [] grp) = Some entry
            \<and> fst ` set ya_days
                = set_option (yasno_day_key entry ''today'') \<union> set_option (yasno_day_key entry ''tomorrow'')"
    by simp
qed

theorem snapshot_two_dates_witness:
  "sample_github_doc \<noteq> []
   \<and> map_of (extract_github (Some sample_github_doc) [''GPV1.1'']) ''GPV1.1''
       = Some (github_group (github_fact sample_github_doc) ''GPV1.1'')
   \<and> map fst (github_group (github_fact sample_github_doc) ''GPV1.1'') = [''2025-01-15'', ''2025-01-16'']
   \<and> length (github_group (github_fact sample_github_doc) ''GPV1.1'') \<le> 2
   \<and> fst ` set (github_group (github_fact sample_github_doc) ''GPV1.1'')
       = date_key ` {ts \<in> set (take 2 (sort (map fst (github_fact sample_github_doc)))).
                      has_data (github_fact sample_github_doc) ''GPV1.1'' ts}
   \<and> extract_yasno (Some sample_yasno_doc) [''GPV1.1'']
       = Inr [(''GPV1.1'', the_inr (yasno_group (the (map_of sample_yasno_doc ''1.1''))))]
   \<and> map fst (the_inr (yasno_group (the (map_of sample_yasno_doc ''1.1'')))) = [''2025-01-15'', ''2025-01-16'']
   \<and> length (the_inr (yasno_group (the (map_of sample_yasno_doc ''1.1'')))) \<le> 2"
proof -
  let ?d = "github_group (github_fact sample_github_doc) ''GPV1.1''"
  let ?y = "the_inr (yasno_group (the (map_of sample_yasno_doc ''1.1'')))"
  have g: "sample_github_doc \<noteq> []"
      "map_of (extract_github (Some sample_github_doc) [''GPV1.1'']) ''GPV1.1'' = Some ?d"
      "map fst ?d = [''2025-01-15'', ''2025-01-16'']"
    by code_simp+
  have y: "extract_yasno (Some sample_yasno_doc) [''GPV1.1''] = Inr [(''GPV1.1'', ?y)]"
      "map_of [(''GPV1.1'', ?y)] ''GPV1.1'' = Some ?y"
      "map fst ?y = [''2025-01-15'', ''2025-01-16'']"
    by code_simp+
  from snapshot_two_dates [of sample_github_doc "[''GPV1.1'']" "''GPV1.1''" ?d
      "Some sample_yasno_doc" "[(''GPV1.1'', ?y)]" ?y] g y
  show ?thesis by simp
qed

text \<open>
  Claim C7 as stated fails when a group has no data under one of the two smallest day
  keys: the keys are cut to two before the group is looked up, so a date available for
  the group under a later key is not in the snapshot.
\<close>

theorem snapshot_two_dates_counterexample:
  "earliest_two_available (github_fact sparse_doc) ''GPV1.1'' = [1737072000]
   \<and> date_key 1737072000 = ''2025-01-17''
   \<and> map_of (extract_github (Some sparse_doc) [''GPV1.1'', ''GPV2.1'']) ''GPV1.1'' = Some []"
  by code_simp

text \<open>
  Claim C10. Every day schedule either parser produces has a timeline exactly when its
  status is \<open>normal\<close>, so a \<open>pending\<close> or \<open>emergency\<close> day has none and a \<open>normal\<close> day
  has one, and a timeline that is present has exactly 48 slots.
\<close>

theorem status_exclusivity:
  "list_all day_invariant (snapshot_days (extract_github gh_data groups))
   \<and> (\<forall>res. extract_yasno ya_data groups = Inr res \<longrightarrow> list_all day_invariant (snapshot_days res))"
  using extract_github_ok [of gh_data groups] extract_yasno_ok [of ya_data groups]
  by (simp add: snapshot_ok_days)

theorem status_exclusivity_witness:
  "extract_yasno (Some sample_yasno_doc) [''GPV1.1'']
     = Inr [(''GPV1.1'', the_inr (yasno_group (the (map_of sample_yasno_doc ''1.1''))))]
   \<and> map ds_status (snapshot_days [(''GPV1.1'', the_inr (yasno_group (the (map_of sample_yasno_doc ''1.1''))))])
       = [''normal'', ''pending'']
   \<and> list_all day_invariant
        (snapshot_days [(''GPV1.1'', the_inr (yasno_group (the (map_of sample_yasno_doc ''1.1''))))])
   \<and> map ds_status (snapshot_days (extract_github (Some sample_github_doc) [''GPV1.1'']))
       = [''normal'', ''pending'']
   \<and> list_all day_invariant (snapshot_days (extract_github (Some sample_github_doc) [''GPV1.1'']))"
proof -
  have e: "extract_yasno (Some sample_yasno_doc) [''GPV1.1'']
     = Inr [(''GPV1.1'', the_inr (yasno_group (the (map_of sample_yasno_doc ''1.1''))))]"
    "map ds_status (snapshot_days [(''GPV1.1'', the_inr (yasno_group (the (map_of sample_yasno_doc ''1.1''))))])
       = [''normal'', ''pending'']"
    "map ds_status (snapshot_days (extract_github (Some sample_github_doc) [''GPV1.1'']))
       = [''normal'', ''pending'']"
    by code_simp+
  from status_exclusivity [of "Some sample_github_doc" "[''GPV1.1'']" "Some sample_yasno_doc"] e
  show ?thesis by simp
qed

section \<open>Properties of the source merger\<close>

lemma snapshot_day_invariant:
  assumes "list_all day_invariant (snapshot_days snap)" "snapshot_day snap grp d_str = Some day"
  shows "day_invariant day"
proof -
  from assms(2) obtain days where "map_of snap grp = Some days" "map_of days d_str = Some day"
    by (auto simp: snapshot_day_def split: option.splits)
  then have "(grp, days) \<in> set snap" "(d_str, day) \<in> set days" by (auto dest: map_of_SomeD)
  then have "day \<in> set (snapshot_days snap)" unfolding set_snapshot_days by blast
  with assms(1) show ?thesis by (simp add: list_all_iff)
qed

lemma sources_match_iff:
  "sources_match g_d y_d \<longleftrightarrow>
     (\<exists>g y. g_d = Some g \<and> y_d = Some y \<and> ds_status g = ''normal'' \<and> ds_status y = ''normal''
            \<and> ds_slots g = ds_slots y)"
  by (auto simp: sources_match_def split: option.splits)

lemma timelines_equal_iff:
  assumes "day_invariant g" "day_invariant y" "ds_status g = ''normal''" "ds_status y = ''normal''"
  shows "ds_slots g = ds_slots y \<longleftrightarrow>
     (\<exists>tg ty. ds_slots g = Some tg \<and> ds_slots y = Some ty \<and> length tg = 48 \<and> length ty = 48
             \<and> (\<forall>i<48. tg ! i = ty ! i))"
proof -
  from assms obtain tg ty where t: "ds_slots g = Some tg" "ds_slots y = Some ty"
      "length tg = 48" "length ty = 48"
    by (auto simp: day_invariant_def split: option.splits)
  then have "tg = ty \<longleftrightarrow> (\<forall>i<48. tg ! i = ty ! i)" by (simp add: list_eq_iff_nth_eq)
  with t show ?thesis by simp
qed

lemma flipped_slot_differs: "k < length tg \<Longrightarrow> tg[k := \<not> tg ! k] \<noteq> tg"
  by (metis nth_list_update_eq)

text \<open>
  Claim C3. In the merger, for every group and date, the two sources match exactly when
  both days are present, both have status \<open>normal\<close>, and their 48-slot timelines are
  equal slot by slot; two timelines that differ in exactly one slot never match; and
  without a match each present source is rendered on its own, source A before source B.
  The days are those of snapshots the parsers produce, which satisfy status exclusivity.
\<close>

theorem merger_match_exact:
  assumes "list_all day_invariant (snapshot_days gh)" "list_all day_invariant (snapshot_days ya)"
  shows
    "(sources_match (snapshot_day gh grp d_str) (snapshot_day ya grp d_str) \<longleftrightarrow>
        (\<exists>g y tg ty. snapshot_day gh grp d_str = Some g \<and> snapshot_day ya grp d_str = Some y
           \<and> ds_status g = ''normal'' \<and> ds_status y = ''normal''
           \<and> ds_slots g = Some tg \<and> ds_slots y = Some ty \<and> length tg = 48 \<and> length ty = 48
           \<and> (\<forall>i<48. tg ! i = ty ! i)))
     \<and> (\<forall>g y tg k. snapshot_day gh grp d_str = Some g \<and> snapshot_day ya grp d_str = Some y
           \<and> ds_slots g = Some tg \<and> k < length tg \<and> ds_slots y = Some (tg[k := \<not> tg ! k])
           \<longrightarrow> \<not> sources_match (snapshot_day gh grp d_str) (snapshot_day ya grp d_str))
     \<and> (\<forall>g y. snapshot_day gh grp d_str = Some g \<and> snapshot_day ya grp d_str = Some y
           \<and> \<not> sources_match (snapshot_day gh grp d_str) (snapshot_day ya grp d_str)
           \<longrightarrow> merge_date format_day gh_name ya_name gh ya grp d_str
                 = Inr [format_day g (ds_date g) ''github'', format_day y (ds_date g) ''yasno''])
     \<and> (\<forall>g. snapshot_day gh grp d_str = Some g \<and> snapshot_day ya grp d_str = None
           \<longrightarrow> merge_date format_day gh_name ya_name gh ya grp d_str
                 = Inr [format_day g (ds_date g) ''github''])
     \<and> (\<forall>y. snapshot_day gh grp d_str = None \<and> snapshot_day ya grp d_str = Some y
           \<longrightarrow> merge_date format_day gh_name ya_name gh ya grp d_str
                 = Inr [format_day y (ds_date y) ''yasno''])"
proof (intro conjI allI impI)
  let ?g = "snapshot_day gh grp d_str" and ?y = "snapshot_day ya grp d_str"
  show "sources_match ?g ?y \<longleftrightarrow>
        (\<exists>g y tg ty. ?g = Some g \<and> ?y = Some y
           \<and> ds_status g = ''normal'' \<and> ds_status y = ''normal''
           \<and> ds_slots g = Some tg \<and> ds_slots y = Some ty \<and> length tg = 48 \<and> length ty = 48
           \<and> (\<forall>i<48. tg ! i = ty ! i))"
  proof
    assume "sources_match ?g ?y"
    then obtain g y where m: "?g = Some g" "?y = Some y" "ds_status g = ''normal''"
        "ds_status y = ''normal''" "ds_slots g = ds_slots y"
      unfolding sources_match_iff by blast
    have "day_invariant g" "day_invariant y"
      using assms m(1,2) by (auto intro: snapshot_day_invariant)
    from timelines_equal_iff [OF this m(3,4)] m show "\<exists>g y tg ty. ?g = Some g \<and> ?y = Some y
           \<and> ds_status g = ''normal'' \<and> ds_status y = ''normal''
           \<and> ds_slots g = Some tg \<and> ds_slots y = Some ty \<and> length tg = 48 \<and> length ty = 48
           \<and> (\<forall>i<48. tg ! i = ty ! i)" by blast
  next
    assume "\<exists>g y tg ty. ?g = Some g \<and> ?y = Some y
           \<and> ds_status g = ''normal'' \<and> ds_status y = ''normal''
           \<and> ds_slots g = Some tg \<and> ds_slots y = Some ty \<and> length tg = 48 \<and> length ty = 48
           \<and> (\<forall>i<48. tg ! i = ty ! i)"
    then obtain g y tg ty where m: "?g = Some g" "?y = Some y" "ds_status g = ''normal''"
        "ds_status y = ''normal''" "ds_slots g = Some tg" "ds_slots y = Some ty"
        "length tg = 48" "length ty = 48" "\<forall>i<48. tg ! i = ty ! i"
      by blast
    then have "tg = ty" by (simp add: list_eq_iff_nth_eq)
    with m show "sources_match ?g ?y" unfolding sources_match_iff by simp
  qed
next
  fix g y tg k
  assume a: "snapshot_day gh grp d_str = Some g \<and> snapshot_day ya grp d_str = Some y
           \<and> ds_slots g = Some tg \<and> k < length tg \<and> ds_slots y = Some (tg[k := \<not> tg ! k])"
  then have "ds_slots g \<noteq> ds_slots y" using flipped_slot_differs [of k tg] by auto
  with a show "\<not> sources_match (snapshot_day gh grp d_str) (snapshot_day ya grp d_str)"
    unfolding sources_match_iff by auto
next
  fix g y
  assume "snapshot_day gh grp d_str = Some g \<and> snapshot_day ya grp d_str = Some y
           \<and> \<not> sources_match (snapshot_day gh grp d_str) (snapshot_day ya grp d_str)"
  then have a: "snapshot_day gh grp d_str = Some g" and b: "snapshot_day ya grp d_str = Some y"
    and c: "\<not> sources_match (snapshot_day gh grp d_str) (snapshot_day ya grp d_str)"
    by blast+
  from c have "\<not> sources_match (Some g) (Some y)" unfolding a b .
  with a b show "merge_date format_day gh_name ya_name gh ya grp d_str
                 = Inr [format_day g (ds_date g) ''github'', format_day y (ds_date g) ''yasno'']"
    by (simp add: merge_date_def day_src_msgs_def Let_def)
next
  fix g
  assume "snapshot_day gh grp d_str = Some g \<and> snapshot_day ya grp d_str = None"
  then show "merge_date format_day gh_name ya_name gh ya grp d_str = Inr [format_day g (ds_date g) ''github'']"
    by (simp add: merge_date_def day_src_msgs_def sources_match_def Let_def)
next
  fix y
  assume "snapshot_day gh grp d_str = None \<and> snapshot_day ya grp d_str = Some y"
  then show "merge_date format_day gh_name ya_name gh ya grp d_str = Inr [format_day y (ds_date y) ''yasno'']"
    by (simp add: merge_date_def day_src_msgs_def)
qed

theorem merger_match_exact_witness:
  "list_all day_invariant (snapshot_days sample_gh_snapshot)
   \<and> list_all day_invariant (snapshot_days sample_ya_snapshot)
   \<and> map_option ds_slots (snapshot_day sample_gh_snapshot ''GPV1.1'' ''2025-01-15'') = Some (Some (replicate 48 True))
   \<and> map_option ds_slots (snapshot_day sample_ya_snapshot ''GPV1.1'' ''2025-01-15'')
       = Some (Some ((replicate 48 True)[5 := \<not> replicate 48 True ! 5]))
   \<and> \<not> sources_match (snapshot_day sample_gh_snapshot ''GPV1.1'' ''2025-01-15'')
                      (snapshot_day sample_ya_snapshot ''GPV1.1'' ''2025-01-15'')
   \<and> merge_date sample_format_day ''A'' ''B'' sample_gh_snapshot sample_ya_snapshot ''GPV1.1'' ''2025-01-15''
       = Inr [''[github]: normal'', ''[yasno]: normal'']"
proof -
  let ?g = "\<lparr>ds_slots = Some (replicate 48 True), ds_date = Datetime 2025 1 15, ds_status = ''normal''\<rparr>"
  let ?y = "\<lparr>ds_slots = Some ((replicate 48 True)[5 := False]), ds_date = Datetime 2025 1 15, ds_status = ''normal''\<rparr>"
  have i: "list_all day_invariant (snapshot_days sample_gh_snapshot)"
    "list_all day_invariant (snapshot_days sample_ya_snapshot)"
    by (simp_all add: snapshot_days_def sample_gh_snapshot_def sample_ya_snapshot_def day_invariant_def)
  have g: "snapshot_day sample_gh_snapshot ''GPV1.1'' ''2025-01-15'' = Some ?g"
    by (simp add: snapshot_day_def sample_gh_snapshot_def)
  have y: "snapshot_day sample_ya_snapshot ''GPV1.1'' ''2025-01-15'' = Some ?y"
    by (simp add: snapshot_day_def sample_ya_snapshot_def)
  have f: "ds_slots ?y = Some ((replicate 48 True)[5 := \<not> replicate 48 True ! 5])"
    "(5::nat) < length (replicate 48 True)" "ds_slots ?g = Some (replicate 48 True)"
    by simp_all
  note t = merger_match_exact [OF i, of "''GPV1.1''" "''2025-01-15''" sample_format_day "''A''" "''B''"]
  from t [THEN conjunct2, THEN conjunct1, rule_format, of ?g ?y "replicate 48 True" 5] g y f
  have n: "\<not> sources_match (snapshot_day sample_gh_snapshot ''GPV1.1'' ''2025-01-15'')
                      (snapshot_day sample_ya_snapshot ''GPV1.1'' ''2025-01-15'')"
    by blast
  from t [THEN conjunct2, THEN conjunct2, THEN conjunct1, rule_format, of ?g ?y] g y n
  have "merge_date sample_format_day ''A'' ''B'' sample_gh_snapshot sample_ya_snapshot ''GPV1.1'' ''2025-01-15''
       = Inr [sample_format_day ?g (ds_date ?g) ''github'', sample_format_day ?y (ds_date ?g) ''yasno'']"
    by blast
  then have m: "merge_date sample_format_day ''A'' ''B'' sample_gh_snapshot sample_ya_snapshot ''GPV1.1'' ''2025-01-15''
       = Inr [''[github]: normal'', ''[yasno]: normal'']"
    by (simp add: sample_format_day_def)
  from i n m show ?thesis unfolding g y by simp
qed

section \<open>Properties of the change detector\<close>

lemma dict_eq_lookup:
  assumes "keys_distinct a" "keys_distinct b"
  shows "dict_eq E a b \<longleftrightarrow> (\<forall>k. rel_option E (map_of a k) (map_of b k))"
proof
  assume e: "dict_eq E a b"
  then have len: "length a = length b"
    and all: "\<And>k v. (k, v) \<in> set a \<Longrightarrow> \<exists>w. map_of b k = Some w \<and> E v w"
    by (auto simp: dict_eq_def list_all_iff split: option.splits)
  have sub: "set (map fst a) \<subseteq> set (map fst b)"
  proof
    fix k assume "k \<in> set (map fst a)"
    then obtain v where "(k, v) \<in> set a" by auto
    from all [OF this] obtain w where "map_of b k = Some w" by blast
    then have "(k, w) \<in> set b" by (rule map_of_SomeD)
    then show "k \<in> set (map fst b)" by force
  qed
  have "card (set (map fst a)) = card (set (map fst b))"
    using assms len distinct_card [of "map fst a"] distinct_card [of "map fst b"]
    unfolding keys_distinct_def by simp
  with sub have keys: "set (map fst a) = set (map fst b)"
    by (intro card_subset_eq) simp_all
  show "\<forall>k. rel_option E (map_of a k) (map_of b k)"
  proof
    fix k
    show "rel_option E (map_of a k) (map_of b k)"
    proof (cases "map_of a k")
      case None
      then have "k \<notin> set (map fst a)" by (simp add: map_of_eq_None_iff)
      with keys have "map_of b k = None" by (simp add: map_of_eq_None_iff)
      with None show ?thesis by simp
    next
      case (Some v)
      then have "(k, v) \<in> set a" by (rule map_of_SomeD)
      from all [OF this] Some show ?thesis by auto
    qed
  qed
next
  assume r: "\<forall>k. rel_option E (map_of a k) (map_of b k)"
  have "k \<in> set (map fst a) \<longleftrightarrow> k \<in> set (map fst b)" for k
  proof -
    from r have "rel_option E (map_of a k) (map_of b k)" by blast
    then have "map_of a k = None \<longleftrightarrow> map_of b k = None" by (cases "map_of a k"; cases "map_of b k") simp_all
    then show ?thesis by (simp add: map_of_eq_None_iff)
  qed
  then have "set (map fst a) = set (map fst b)" by blast
  then have "card (set (map fst a)) = card (set (map fst b))" by simp
  then have len: "length a = length b"
    using assms distinct_card [of "map fst a"] distinct_card [of "map fst b"]
    unfolding keys_distinct_def by simp
  have "case map_of b k of None \<Rightarrow> False | Some w \<Rightarrow> E v w" if "(k, v) \<in> set a" for k v
  proof -
    from that assms(1) have "map_of a k = Some v" by (simp add: keys_distinct_def)
    moreover from r have "rel_option E (map_of a k) (map_of b k)" by blast
    ultimately show ?thesis by (cases "map_of b k") simp_all
  qed
  with len show "dict_eq E a b" by (auto simp: dict_eq_def list_all_iff)
qed

lemma list_all2_lookup:
  "list_all2 (\<lambda>(k, v) (k', v'). k = k' \<and> R v v') zs b \<Longrightarrow> rel_option R (map_of zs k) (map_of b k)"
proof (induction rule: list_all2_induct)
  case Nil
  show ?case by simp
next
  case (Cons x xs y ys)
  then show ?case by (cases x; cases y) simp
qed

lemma list_all2_keys:
  "list_all2 (\<lambda>(k, v) (k', v'). k = k' \<and> R v v') zs b \<Longrightarrow> map fst zs = map fst b"
  by (induction rule: list_all2_induct) auto

lemma dict_perm_lookup:
  assumes "dict_perm R a a'" "keys_distinct a"
  shows "keys_distinct a' \<and> (\<forall>k. rel_option R (map_of a k) (map_of a' k))"
proof -
  from assms(1) obtain zs where zs: "mset zs = mset a"
    and l: "list_all2 (\<lambda>(k, v) (k', v'). k = k' \<and> R v v') zs a'"
    by (auto simp: dict_perm_def)
  from zs have "mset (map fst zs) = mset (map fst a)" by simp
  then have dz: "distinct (map fst zs)"
    using assms(2) mset_eq_imp_distinct_iff unfolding keys_distinct_def by blast
  from zs have "set zs = set a" by (rule mset_eq_setD)
  with dz assms(2) have m: "map_of zs = map_of a"
    by (simp add: map_of_inject_set keys_distinct_def)
  from list_all2_keys [OF l] dz have "keys_distinct a'" by (simp add: keys_distinct_def)
  moreover have "rel_option R (map_of a k) (map_of a' k)" for k
    using list_all2_lookup [OF l, of k] m by simp
  ultimately show ?thesis by blast
qed

lemma dict_eq_perm_cong:
  assumes "dict_perm R a a'" "keys_distinct a" "keys_distinct b"
    and c: "\<And>v v' w. v \<in> snd ` set a \<Longrightarrow> w \<in> snd ` set b \<Longrightarrow> R v v' \<Longrightarrow> E v' w = E v w"
  shows "dict_eq E a' b = dict_eq E a b"
proof -
  from dict_perm_lookup [OF assms(1,2)]
  have d': "keys_distinct a'" and r: "\<And>k. rel_option R (map_of a k) (map_of a' k)" by blast+
  have "rel_option E (map_of a' k) (map_of b k) = rel_option E (map_of a k) (map_of b k)" for k
  proof (cases "map_of a k")
    case None
    with r [of k] have "map_of a' k = None" by simp
    with None show ?thesis by simp
  next
    case (Some v)
    with r [of k] obtain v' where v': "map_of a' k = Some v'" "R v v'"
      by (cases "map_of a' k") simp_all
    show ?thesis
    proof (cases "map_of b k")
      case None
      with Some v' show ?thesis by simp
    next
      case (Some w)
      have "v \<in> snd ` set a" using \<open>map_of a k = Some v\<close> by (force dest: map_of_SomeD)
      moreover have "w \<in> snd ` set b" using Some by (force dest: map_of_SomeD)
      ultimately have "E v' w = E v w" using v'(2) by (rule c)
      with Some v' \<open>map_of a k = Some v\<close> show ?thesis by simp
    qed
  qed
  then show ?thesis
    unfolding dict_eq_lookup [OF d' assms(3)] dict_eq_lookup [OF assms(2,3)] by simp
qed

lemma dict_eq_sym_cong:
  assumes "keys_distinct a" "keys_distinct b"
    and c: "\<And>v w. v \<in> snd ` set a \<Longrightarrow> w \<in> snd ` set b \<Longrightarrow> E v w = E' w v"
  shows "dict_eq E a b = dict_eq E' b a"
proof -
  have "rel_option E (map_of a k) (map_of b k) = rel_option E' (map_of b k) (map_of a k)" for k
  proof (cases "map_of a k")
    case None
    then show ?thesis by (cases "map_of b k") simp_all
  next
    case (Some v)
    show ?thesis
    proof (cases "map_of b k")
      case None
      with Some show ?thesis by simp
    next
      case w: (Some w)
      have "v \<in> snd ` set a" using Some by (force dest: map_of_SomeD)
      moreover have "w \<in> snd ` set b" using w by (force dest: map_of_SomeD)
      ultimately have "E v w = E' w v" by (rule c)
      with Some w show ?thesis by simp
    qed
  qed
  then show ?thesis
    unfolding dict_eq_lookup [OF assms(1,2)] dict_eq_lookup [OF assms(2,1)] by simp
qed

lemma dict_eq_refl:
  assumes "keys_distinct a" and "\<And>v. v \<in> snd ` set a \<Longrightarrow> E v v"
  shows "dict_eq E a a"
proof -
  have "rel_option E (map_of a k) (map_of a k)" for k
  proof (cases "map_of a k")
    case None
    then show ?thesis by simp
  next
    case (Some v)
    then have "v \<in> snd ` set a" by (force dest: map_of_SomeD)
    with assms(2) Some show ?thesis by simp
  qed
  then show ?thesis unfolding dict_eq_lookup [OF assms(1) assms(1)] by simp
qed

lemma dict_eq_map_entry:
  assumes "dict_eq E a b" "map_of a k = Some v" and n: "\<And>w. E v w \<Longrightarrow> \<not> E (f v) w"
  shows "\<not> dict_eq E (map_entry k f a) b"
proof
  assume m: "dict_eq E (map_entry k f a) b"
  from assms(2) have in_a: "(k, v) \<in> set a" by (rule map_of_SomeD)
  with assms(1) obtain w where w: "map_of b k = Some w" "E v w"
    by (auto simp: dict_eq_def list_all_iff split: option.splits)
  from in_a have "(k, f v) \<in> set (map_entry k f a)" by (force simp: map_entry_def)
  with m have "case map_of b k of None \<Rightarrow> False | Some w' \<Rightarrow> E (f v) w'"
    by (auto simp: dict_eq_def list_all_iff)
  with w have "E (f v) w" by simp
  with n [OF w(2)] show False by simp
qed


lemma dict_eq_perm_cong_right:
  assumes "dict_perm R b b'" "keys_distinct a" "keys_distinct b"
    and c: "\<And>v w w'. v \<in> snd ` set a \<Longrightarrow> w \<in> snd ` set b \<Longrightarrow> R w w' \<Longrightarrow> E v w' = E v w"
  shows "dict_eq E a b' = dict_eq E a b"
proof -
  from dict_perm_lookup [OF assms(1,3)]
  have d': "keys_distinct b'" and r: "\<And>k. rel_option R (map_of b k) (map_of b' k)" by blast+
  have "rel_option E (map_of a k) (map_of b' k) = rel_option E (map_of a k) (map_of b k)" for k
  proof (cases "map_of b k")
    case None
    with r [of k] have "map_of b' k = None" by simp
    with None show ?thesis by simp
  next
    case (Some w)
    with r [of k] obtain w' where w': "map_of b' k = Some w'" "R w w'"
      by (cases "map_of b' k") simp_all
    show ?thesis
    proof (cases "map_of a k")
      case None
      with Some w' show ?thesis by simp
    next
      case v: (Some v)
      have "v \<in> snd ` set a" using v by (force dest: map_of_SomeD)
      moreover have "w \<in> snd ` set b" using Some by (force dest: map_of_SomeD)
      ultimately have "E v w' = E v w" using w'(2) by (rule c)
      with Some w' v show ?thesis by simp
    qed
  qed
  then show ?thesis
    unfolding dict_eq_lookup [OF assms(2) d'] dict_eq_lookup [OF assms(2,3)] by simp
qed

lemma groups_wf_value: "groups_wf g \<Longrightarrow> d \<in> snd ` set g \<Longrightarrow> keys_distinct d"
  by (auto simp: groups_wf_def list_all_iff)

lemma cache_wf_value: "cache_wf c \<Longrightarrow> g \<in> snd ` set c \<Longrightarrow> groups_wf g"
  by (auto simp: cache_wf_def list_all_iff)

lemma dates_perm_cong:
  "dict_perm (=) d d' \<Longrightarrow> keys_distinct d \<Longrightarrow> keys_distinct w \<Longrightarrow> dict_eq (=) d' w = dict_eq (=) d w"
  by (rule dict_eq_perm_cong [where R = "(=)"]) simp_all

lemma dates_perm_cong_right:
  "dict_perm (=) w w' \<Longrightarrow> keys_distinct d \<Longrightarrow> keys_distinct w \<Longrightarrow> dict_eq (=) d w' = dict_eq (=) d w"
  by (rule dict_eq_perm_cong_right [where R = "(=)"]) simp_all

lemma groups_perm_cong:
  assumes "dict_perm (dict_perm (=)) g g'" "groups_wf g" "groups_wf w"
  shows "dict_eq (dict_eq (=)) g' w = dict_eq (dict_eq (=)) g w"
  using assms(1)
proof (rule dict_eq_perm_cong)
  show "keys_distinct g" "keys_distinct w" using assms(2,3) by (simp_all add: groups_wf_def)
  fix v v' x
  assume "v \<in> snd ` set g" "x \<in> snd ` set w" "dict_perm (=) v v'"
  then show "dict_eq (=) v' x = dict_eq (=) v x"
    using assms(2,3) by (intro dates_perm_cong groups_wf_value)
qed

lemma groups_perm_cong_right:
  assumes "dict_perm (dict_perm (=)) w w'" "groups_wf g" "groups_wf w"
  shows "dict_eq (dict_eq (=)) g w' = dict_eq (dict_eq (=)) g w"
  using assms(1)
proof (rule dict_eq_perm_cong_right)
  show "keys_distinct g" "keys_distinct w" using assms(2,3) by (simp_all add: groups_wf_def)
  fix v x x'
  assume "v \<in> snd ` set g" "x \<in> snd ` set w" "dict_perm (=) x x'"
  then show "dict_eq (=) v x' = dict_eq (=) v x"
    using assms(2,3) by (intro dates_perm_cong_right groups_wf_value)
qed

lemma cache_perm_cong:
  assumes "cache_perm a a'" "cache_wf a" "cache_wf b"
  shows "cache_eq a' b = cache_eq a b"
  unfolding cache_eq_def using assms(1) [unfolded cache_perm_def]
proof (rule dict_eq_perm_cong)
  show "keys_distinct a" "keys_distinct b" using assms(2,3) by (simp_all add: cache_wf_def)
  fix v v' x
  assume "v \<in> snd ` set a" "x \<in> snd ` set b" "dict_perm (dict_perm (=)) v v'"
  then show "dict_eq (dict_eq (=)) v' x = dict_eq (dict_eq (=)) v x"
    using assms(2,3) by (intro groups_perm_cong cache_wf_value)
qed

lemma cache_perm_cong_right:
  assumes "cache_perm b b'" "cache_wf a" "cache_wf b"
  shows "cache_eq a b' = cache_eq a b"
  unfolding cache_eq_def using assms(1) [unfolded cache_perm_def]
proof (rule dict_eq_perm_cong_right)
  show "keys_distinct a" "keys_distinct b" using assms(2,3) by (simp_all add: cache_wf_def)
  fix v x x'
  assume "v \<in> snd ` set a" "x \<in> snd ` set b" "dict_perm (dict_perm (=)) x x'"
  then show "dict_eq (dict_eq (=)) v x' = dict_eq (dict_eq (=)) v x"
    using assms(2,3) by (intro groups_perm_cong_right cache_wf_value)
qed

lemma cache_eq_refl:
  assumes "cache_wf a"
  shows "cache_eq a a"
  unfolding cache_eq_def
proof (rule dict_eq_refl)
  show "keys_distinct a" using assms by (simp add: cache_wf_def)
  fix g assume "g \<in> snd ` set a"
  with assms have wf: "groups_wf g" by (rule cache_wf_value)
  show "dict_eq (dict_eq (=)) g g"
  proof (rule dict_eq_refl)
    show "keys_distinct g" using wf by (simp add: groups_wf_def)
    fix d assume "d \<in> snd ` set g"
    with wf have "keys_distinct d" by (rule groups_wf_value)
    then show "dict_eq (=) d d" by (rule dict_eq_refl) simp
  qed
qed

lemma cache_eq_sym:
  assumes "cache_wf a" "cache_wf b"
  shows "cache_eq a b = cache_eq b a"
  unfolding cache_eq_def
proof (rule dict_eq_sym_cong)
  show "keys_distinct a" "keys_distinct b" using assms by (simp_all add: cache_wf_def)
  fix v w
  assume "v \<in> snd ` set a" "w \<in> snd ` set b"
  with assms have wf: "groups_wf v" "groups_wf w" by (auto dest: cache_wf_value)
  show "dict_eq (dict_eq (=)) v w = dict_eq (dict_eq (=)) w v"
  proof (rule dict_eq_sym_cong)
    show "keys_distinct v" "keys_distinct w" using wf by (simp_all add: groups_wf_def)
    fix x y
    assume "x \<in> snd ` set v" "y \<in> snd ` set w"
    with wf have "keys_distinct x" "keys_distinct y" by (auto dest: groups_wf_value)
    then show "dict_eq (=) x y = dict_eq (=) y x" by (rule dict_eq_sym_cong) auto
  qed
qed

lemma flip_day_differs: "cd_slots day = Some t \<Longrightarrow> i < length t \<Longrightarrow> flip_day i day \<noteq> day"
proof
  assume a: "cd_slots day = Some t" "i < length t" "flip_day i day = day"
  then have "cd_slots (flip_day i day) = Some t" by simp
  with a(1) have "t[i := \<not> t ! i] = t" by (simp add: flip_day_def)
  with a(2) show False by (metis nth_list_update_eq)
qed

lemma cache_flip_changes:
  assumes "cache_eq a b" "cache_timeline a src grp d_str = Some t" "i < length t"
  shows "\<not> cache_eq (flip_slot src grp d_str i a) b"
proof -
  from assms(2) obtain groups dates day where l: "map_of a src = Some groups"
      "map_of groups grp = Some dates" "map_of dates d_str = Some day" "cd_slots day = Some t"
    by (auto simp: cache_timeline_def split: option.splits)
  have 3: "\<not> dict_eq (=) (map_entry d_str (flip_day i) dates) w" if "dict_eq (=) dates w" for w
    using that l(3)
  proof (rule dict_eq_map_entry)
    fix x assume "day = x"
    then show "flip_day i day \<noteq> x" using flip_day_differs [OF l(4) assms(3)] by simp
  qed
  have 2: "\<not> dict_eq (dict_eq (=)) (map_entry grp (map_entry d_str (flip_day i)) groups) w"
    if "dict_eq (dict_eq (=)) groups w" for w
    using that l(2) by (rule dict_eq_map_entry) (rule 3)
  show ?thesis
    unfolding flip_slot_def cache_eq_def
    using assms(1) [unfolded cache_eq_def] l(1) by (rule dict_eq_map_entry) (rule 2)
qed

lemma map_entry_keys: "map fst (map_entry k f d) = map fst d"
  by (induction d) (auto simp: map_entry_def)

lemma map_entry_values:
  assumes "v \<in> snd ` set (map_entry k f d)"
  shows "v \<in> snd ` set d \<or> (\<exists>u \<in> snd ` set d. v = f u)"
proof -
  from assms obtain k' u where u: "(k', u) \<in> set d" "v = snd (if k' = k then (k', f u) else (k', u))"
    by (auto simp: map_entry_def)
  then have "u \<in> snd ` set d" by force
  with u(2) show ?thesis by (cases "k' = k") auto
qed

lemma flip_slot_wf: "cache_wf c \<Longrightarrow> cache_wf (flip_slot src grp d_str i c)"
proof -
  assume wf: "cache_wf c"
  have k3: "keys_distinct (map_entry d_str (flip_day i) d)" if "keys_distinct d" for d :: "cache_day dict"
    using that by (simp add: keys_distinct_def map_entry_keys)
  have k2: "groups_wf (map_entry grp (map_entry d_str (flip_day i)) g)" if g: "groups_wf g" for g
  proof -
    have "keys_distinct (map_entry grp (map_entry d_str (flip_day i)) g)"
      using g by (simp add: groups_wf_def keys_distinct_def map_entry_keys)
    moreover have "keys_distinct v" if "v \<in> snd ` set (map_entry grp (map_entry d_str (flip_day i)) g)" for v
      using map_entry_values [OF that] g k3 by (auto dest: groups_wf_value)
    ultimately show ?thesis unfolding groups_wf_def list_all_iff by force
  qed
  have "keys_distinct (flip_slot src grp d_str i c)"
    using wf by (simp add: flip_slot_def cache_wf_def keys_distinct_def map_entry_keys)
  moreover have "groups_wf v" if "v \<in> snd ` set (flip_slot src grp d_str i c)" for v
    using map_entry_values [OF that [unfolded flip_slot_def]] wf k2 by (auto dest: cache_wf_value)
  ultimately show ?thesis unfolding cache_wf_def list_all_iff by force
qed

lemma cache_flip_changes_right:
  assumes "cache_wf a" "cache_wf b" "cache_eq a b" "cache_timeline b src grp d_str = Some t" "i < length t"
  shows "\<not> cache_eq a (flip_slot src grp d_str i b)"
proof -
  from assms(1-3) have "cache_eq b a" by (simp add: cache_eq_sym)
  from cache_flip_changes [OF this assms(4,5)] have "\<not> cache_eq (flip_slot src grp d_str i b) a" .
  then show ?thesis using cache_eq_sym [OF assms(1) flip_slot_wf [OF assms(2)]] by simp
qed

lemma foldl_update_keys_distinct:
  "distinct (map fst m) \<Longrightarrow> distinct (map fst (foldl (\<lambda>m (k, v). AList.update k (f v) m) m d))"
  by (induction d arbitrary: m) (auto simp: distinct_update)

lemma foldl_update_values:
  "x \<in> snd ` set (foldl (\<lambda>m (k, v). AList.update k (f v) m) m d) \<Longrightarrow> x \<in> snd ` set m \<or> x \<in> f ` snd ` set d"
proof (induction d arbitrary: m)
  case Nil
  then show ?case by simp
next
  case (Cons e d)
  obtain k v where e: "e = (k, v)" by (cases e)
  from Cons.prems have "x \<in> snd ` set (foldl (\<lambda>m (k, v). AList.update k (f v) m) (AList.update k (f v) m) d)"
    by (simp add: e)
  from Cons.IH [OF this] set_update_subset [of k "f v" m] show ?case by (auto simp: e)
qed

lemma serialize_days_distinct: "keys_distinct (serialize_days d)"
  unfolding keys_distinct_def serialize_days_def by (rule foldl_update_keys_distinct) simp

lemma serialize_wf: "groups_wf (serialize s)"
proof -
  have "keys_distinct (serialize s)"
    unfolding keys_distinct_def serialize_def by (rule foldl_update_keys_distinct) simp
  moreover have "keys_distinct x" if "x \<in> snd ` set (serialize s)" for x
    using foldl_update_values [OF that [unfolded serialize_def]] serialize_days_distinct by auto
  ultimately show ?thesis unfolding groups_wf_def list_all_iff by force
qed

lemma new_cache_wf: "cache_wf (new_cache gh_sched ya_sched)"
  by (simp add: cache_wf_def new_cache_def keys_distinct_def serialize_wf)


lemma dict_perm_refl: "(\<And>v. R v v) \<Longrightarrow> dict_perm R a a"
  unfolding dict_perm_def by (intro exI [of _ a]) (auto intro!: list_all2_refl)

lemma dict_perm_swap:
  "R v v \<Longrightarrow> R w w \<Longrightarrow> dict_perm R [(k1, v), (k2, w)] [(k2, w), (k1, v)]"
  unfolding dict_perm_def by (intro exI [of _ "[(k2, w), (k1, v)]"]) simp

lemma cache_perm_swap: "cache_perm [(k1, v), (k2, w)] [(k2, w), (k1, v)]"
  unfolding cache_perm_def by (intro dict_perm_swap dict_perm_refl) simp_all

lemma cache_entry_changes:
  assumes "cache_eq a b" "map_of a src = Some groups" "map_of groups grp = Some dates"
    "map_of dates d_str = Some day" "f day \<noteq> day"
  shows "\<not> cache_eq (map_entry src (map_entry grp (map_entry d_str f)) a) b"
proof -
  have 3: "\<not> dict_eq (=) (map_entry d_str f dates) w" if "dict_eq (=) dates w" for w
    using that assms(4)
  proof (rule dict_eq_map_entry)
    fix x assume "day = x"
    then show "f day \<noteq> x" using assms(5) by simp
  qed
  have 2: "\<not> dict_eq (dict_eq (=)) (map_entry grp (map_entry d_str f) groups) w"
    if "dict_eq (dict_eq (=)) groups w" for w
    using that assms(3) by (rule dict_eq_map_entry) (rule 3)
  show ?thesis
    unfolding cache_eq_def
    using assms(1) [unfolded cache_eq_def] assms(2) by (rule dict_eq_map_entry) (rule 2)
qed

lemma entry_update_wf:
  assumes wf: "cache_wf c"
  shows "cache_wf (map_entry src (map_entry grp (map_entry d_str f)) c)"
proof -
  have k3: "keys_distinct (map_entry d_str f d)" if "keys_distinct d" for d :: "cache_day dict"
    using that by (simp add: keys_distinct_def map_entry_keys)
  have k2: "groups_wf (map_entry grp (map_entry d_str f) g)" if g: "groups_wf g" for g
  proof -
    have "keys_distinct (map_entry grp (map_entry d_str f) g)"
      using g by (simp add: groups_wf_def keys_distinct_def map_entry_keys)
    moreover have "keys_distinct v" if "v \<in> snd ` set (map_entry grp (map_entry d_str f) g)" for v
      using map_entry_values [OF that] g k3 by (auto dest: groups_wf_value)
    ultimately show ?thesis unfolding groups_wf_def list_all_iff by force
  qed
  have "keys_distinct (map_entry src (map_entry grp (map_entry d_str f)) c)"
    using wf by (simp add: cache_wf_def keys_distinct_def map_entry_keys)
  moreover have "groups_wf v" if "v \<in> snd ` set (map_entry src (map_entry grp (map_entry d_str f)) c)" for v
    using map_entry_values [OF that] wf k2 by (auto dest: cache_wf_value)
  ultimately show ?thesis unfolding cache_wf_def list_all_iff by force
qed

lemma cache_timeline_changes:
  assumes "cache_eq a b" "cache_timeline a src grp d_str = Some t" "t' \<noteq> t"
  shows "\<not> cache_eq (set_timeline src grp d_str t' a) b"
proof -
  from assms(2) obtain groups dates day where l: "map_of a src = Some groups"
      "map_of groups grp = Some dates" "map_of dates d_str = Some day" "cd_slots day = Some t"
    by (auto simp: cache_timeline_def split: option.splits)
  have "day\<lparr>cd_slots := Some t'\<rparr> \<noteq> day"
  proof
    assume "day\<lparr>cd_slots := Some t'\<rparr> = day"
    then have "cd_slots (day\<lparr>cd_slots := Some t'\<rparr>) = Some t" using l(4) by simp
    with assms(3) show False by simp
  qed
  with assms(1) l(1-3) show ?thesis unfolding set_timeline_def by (rule cache_entry_changes)
qed

lemma cache_timeline_changes_right:
  assumes "cache_wf a" "cache_wf b" "cache_eq a b" "cache_timeline b src grp d_str = Some t" "t' \<noteq> t"
  shows "\<not> cache_eq a (set_timeline src grp d_str t' b)"
proof -
  from assms(1-3) have "cache_eq b a" by (simp add: cache_eq_sym)
  from cache_timeline_changes [OF this assms(4,5)] have "\<not> cache_eq (set_timeline src grp d_str t' b) a" .
  moreover have "cache_wf (set_timeline src grp d_str t' b)"
    unfolding set_timeline_def using assms(2) by (rule entry_update_wf)
  ultimately show ?thesis using cache_eq_sym [OF assms(1)] by simp
qed

text \<open>
  Claim C8. The equality test of the change detector, between the serialized current
  snapshot and the persisted cache, does not depend on the order of the keys at the
  source, group and date levels: reordering either side does not change its answer, and
  a persisted cache that is a reordering of the current one is never a change. It does
  depend on the value and on the order of the slots of every timeline: when the two are
  equal, flipping any single slot of any timeline of either side makes them differ, and
  so does putting the slots of any timeline in another order (or, on the persisted
  side, replacing the timeline by any other list).
\<close>

theorem change_detection_order:
  assumes "cache_wf old_c"
  shows
    "(cache_perm old_c old_c' \<longrightarrow> no_changes gh ya old_c' = no_changes gh ya old_c)
     \<and> (cache_perm (new_cache gh ya) new_c' \<longrightarrow> cache_eq new_c' old_c = no_changes gh ya old_c)
     \<and> (cache_perm old_c (new_cache gh ya) \<longrightarrow> no_changes gh ya old_c)
     \<and> (\<forall>src grp d_str i t.
           no_changes gh ya old_c \<and> cache_timeline (new_cache gh ya) src grp d_str = Some t \<and> i < length t
           \<longrightarrow> \<not> cache_eq (flip_slot src grp d_str i (new_cache gh ya)) old_c)
     \<and> (\<forall>src grp d_str i t.
           no_changes gh ya old_c \<and> cache_timeline old_c src grp d_str = Some t \<and> i < length t
           \<longrightarrow> \<not> no_changes gh ya (flip_slot src grp d_str i old_c))
     \<and> (\<forall>src grp d_str t t'.
           no_changes gh ya old_c \<and> cache_timeline (new_cache gh ya) src grp d_str = Some t
           \<and> mset t' = mset t \<and> t' \<noteq> t
           \<longrightarrow> \<not> cache_eq (set_timeline src grp d_str t' (new_cache gh ya)) old_c)
     \<and> (\<forall>src grp d_str t t'.
           no_changes gh ya old_c \<and> cache_timeline old_c src grp d_str = Some t
           \<and> mset t' = mset t \<and> t' \<noteq> t
           \<longrightarrow> \<not> no_changes gh ya (set_timeline src grp d_str t' old_c))
     \<and> (\<forall>src grp d_str t t'.
           no_changes gh ya old_c \<and> cache_timeline old_c src grp d_str = Some t \<and> t' \<noteq> t
           \<longrightarrow> \<not> no_changes gh ya (set_timeline src grp d_str t' old_c))"
proof -
  note n = new_cache_wf [of gh ya]
  have 1: "cache_perm old_c old_c' \<longrightarrow> no_changes gh ya old_c' = no_changes gh ya old_c"
    unfolding no_changes_def using cache_perm_cong_right [OF _ n assms] by blast
  have 2: "cache_perm (new_cache gh ya) new_c' \<longrightarrow> cache_eq new_c' old_c = no_changes gh ya old_c"
    unfolding no_changes_def using cache_perm_cong [OF _ n assms] by blast
  have 3: "cache_perm old_c (new_cache gh ya) \<longrightarrow> no_changes gh ya old_c"
    unfolding no_changes_def
    using cache_perm_cong [OF _ assms assms, of "new_cache gh ya"] cache_eq_refl [OF assms] by blast
  have 4: "\<forall>src grp d_str i t.
           no_changes gh ya old_c \<and> cache_timeline (new_cache gh ya) src grp d_str = Some t \<and> i < length t
           \<longrightarrow> \<not> cache_eq (flip_slot src grp d_str i (new_cache gh ya)) old_c"
    unfolding no_changes_def using cache_flip_changes by blast
  have 5: "\<forall>src grp d_str i t.
           no_changes gh ya old_c \<and> cache_timeline old_c src grp d_str = Some t \<and> i < length t
           \<longrightarrow> \<not> no_changes gh ya (flip_slot src grp d_str i old_c)"
    unfolding no_changes_def using cache_flip_changes_right [OF n assms] by blast
  have 6: "\<forall>src grp d_str t t'.
           no_changes gh ya old_c \<and> cache_timeline (new_cache gh ya) src grp d_str = Some t
           \<and> mset t' = mset t \<and> t' \<noteq> t
           \<longrightarrow> \<not> cache_eq (set_timeline src grp d_str t' (new_cache gh ya)) old_c"
    unfolding no_changes_def using cache_timeline_changes by blast
  have 8: "\<forall>src grp d_str t t'.
           no_changes gh ya old_c \<and> cache_timeline old_c src grp d_str = Some t \<and> t' \<noteq> t
           \<longrightarrow> \<not> no_changes gh ya (set_timeline src grp d_str t' old_c)"
    unfolding no_changes_def using cache_timeline_changes_right [OF n assms] by blast
  then have 7: "\<forall>src grp d_str t t'.
           no_changes gh ya old_c \<and> cache_timeline old_c src grp d_str = Some t
           \<and> mset t' = mset t \<and> t' \<noteq> t
           \<longrightarrow> \<not> no_changes gh ya (set_timeline src grp d_str t' old_c)"
    by blast
  from 1 2 3 4 5 6 7 8 show ?thesis by blast
qed

theorem change_detection_order_witness:
  "cache_wf sample_old_cache
   \<and> cache_perm sample_old_cache (new_cache sample_gh_snapshot sample_ya_snapshot)
   \<and> no_changes sample_gh_snapshot sample_ya_snapshot sample_old_cache
   \<and> cache_timeline sample_old_cache ''yasno'' ''GPV1.1'' ''2025-01-15'' = Some ((replicate 48 True)[5 := False])
   \<and> \<not> no_changes sample_gh_snapshot sample_ya_snapshot
          (flip_slot ''yasno'' ''GPV1.1'' ''2025-01-15'' 7 sample_old_cache)
   \<and> mset ((replicate 48 True)[6 := False]) = mset ((replicate 48 True)[5 := False])
   \<and> (replicate 48 True)[6 := False] \<noteq> (replicate 48 True)[5 := False]
   \<and> \<not> no_changes sample_gh_snapshot sample_ya_snapshot
          (set_timeline ''yasno'' ''GPV1.1'' ''2025-01-15'' ((replicate 48 True)[6 := False]) sample_old_cache)"
proof -
  have w: "cache_wf sample_old_cache" by code_simp
  have p: "cache_perm sample_old_cache (new_cache sample_gh_snapshot sample_ya_snapshot)"
    unfolding sample_old_cache_def new_cache_def by (rule cache_perm_swap)
  have t: "cache_timeline sample_old_cache ''yasno'' ''GPV1.1'' ''2025-01-15'' = Some ((replicate 48 True)[5 := False])"
    by code_simp
  note c = change_detection_order [OF w, of sample_old_cache sample_gh_snapshot sample_ya_snapshot sample_old_cache]
  from c p have u: "no_changes sample_gh_snapshot sample_ya_snapshot sample_old_cache" by blast
  have "(7::nat) < length ((replicate 48 True)[5 := False])" by simp
  with c u t have f: "\<not> no_changes sample_gh_snapshot sample_ya_snapshot
          (flip_slot ''yasno'' ''GPV1.1'' ''2025-01-15'' 7 sample_old_cache)"
    by blast
  have m: "mset ((replicate 48 True)[6 := False]) = mset ((replicate 48 True)[5 := False])"
    by (simp add: mset_update)
  have d: "(replicate 48 True)[6 := False] \<noteq> (replicate 48 True)[5 := False]"
  proof
    assume "(replicate 48 True)[6 := False] = (replicate 48 True)[5 := False]"
    then have "(replicate 48 True)[6 := False] ! 6 = (replicate 48 True)[5 := False] ! 6" by simp
    then show False by simp
  qed
  from c u t m d have r: "\<not> no_changes sample_gh_snapshot sample_ya_snapshot
          (set_timeline ''yasno'' ''GPV1.1'' ''2025-01-15'' ((replicate 48 True)[6 := False]) sample_old_cache)"
    by blast
  from w p u t f m d r show ?thesis by simp
qed

end
